theory Spec2Isabelle
  imports Main "HOL-Library.AList"
begin

section \<open>Data model\<close>

text \<open>
  The bot keeps all of its state in module-level variables of \<open>index.js\<close>. Chat identifiers
  are used as property names of plain objects, so they are strings; time stamps are the
  ISO strings of \<open>new Date().toISOString()\<close>, passed to the model as a parameter.
\<close>

type_synonym chat = string
type_synonym timestamp = string

text \<open>A media entry, as pushed by the video and photo handlers.\<close>

record media =
  id_m :: string
  type_m :: string
  caption :: string
  addedAt :: timestamp

text \<open>An entry of \<open>scheduleData\<close>, as written by \<open>createScheduledJob\<close>.\<close>

record schedule_entry =
  interval :: int
  mediaType :: string
  createdAt :: timestamp

text \<open>
  A job of the timer library: the recurrence rule's step and the variables its callback
  closes over.
\<close>

record job =
  job_chat :: chat
  job_interval :: int
  job_mediaType :: string

type_synonym tracking = "chat \<rightharpoonup> int set"

text \<open>
  The program state. \<open>videosFile\<close>, \<open>imagesFile\<close> and \<open>schedulesFile\<close> are the contents of
  the three JSON files. \<open>scheduleData\<close> is an association list, since the startup loop
  enumerates its keys. \<open>schedules\<close> maps a chat to the handle of its job; \<open>timers\<close> is the
  timer library's own table of armed jobs (\<open>scheduleJob\<close> adds the job it returns,
  \<open>cancel\<close> removes it), and \<open>nextJob\<close> the next fresh handle.
\<close>

record state =
  videos :: "media list"
  images :: "media list"
  schedules :: "chat \<rightharpoonup> nat"
  scheduleData :: "(chat \<times> schedule_entry) list"
  sentMediaTracking :: tracking
  videosFile :: "media list"
  imagesFile :: "media list"
  schedulesFile :: "(chat \<times> schedule_entry) list"
  timers :: "nat \<rightharpoonup> job"
  nextJob :: nat

section \<open>Delivery tracker: \<open>getNextUnsentMedia\<close>\<close>

text \<open>
  \<open>Math.floor(Math.random() * len)\<close>: the random source is a natural number \<open>u\<close>, and the
  index drawn is \<open>u mod len\<close>, which ranges over exactly \<open>0..len-1\<close>; for \<open>len = 0\<close> the
  product is \<open>0\<close>.
\<close>

definition rand_index :: "nat \<Rightarrow> nat \<Rightarrow> nat" where
  "rand_index u len = (if len = 0 then 0 else u mod len)"

text \<open>Array indexing: \<open>None\<close> is JavaScript's \<open>undefined\<close>.\<close>

definition js_nth :: "'a list \<Rightarrow> nat \<Rightarrow> 'a option" where
  "js_nth xs i = (if i < length xs then Some (xs ! i) else None)"

text \<open>\<open>Array.prototype.filter\<close> with a callback that also reads the index.\<close>

definition filter_js :: "('a \<Rightarrow> nat \<Rightarrow> bool) \<Rightarrow> 'a list \<Rightarrow> 'a list" where
  "filter_js P xs = map fst (filter (\<lambda>(x, i). P x i) (zip xs [0..<length xs]))"

text \<open>
  \<open>Array.prototype.indexOf\<close>: the first position holding the value, \<open>-1\<close> when there is
  none. Equality of the model stands for \<open>===\<close>, which on objects is identity.
\<close>

fun indexOf :: "'a list \<Rightarrow> 'a \<Rightarrow> int" where
  "indexOf [] x = -1"
| "indexOf (y # ys) x =
     (if y = x then 0 else (let r = indexOf ys x in if r < 0 then -1 else r + 1))"

definition sent_of :: "tracking \<Rightarrow> chat \<Rightarrow> int set" where
  "sent_of tr chatId = (case tr chatId of None \<Rightarrow> {} | Some S \<Rightarrow> S)"

text \<open>
  The function returns the selected item (\<open>None\<close> for \<open>undefined\<close>) and the updated
  \<open>sentMediaTracking\<close>. \<open>undefined\<close> is never an element of the list, so its \<open>indexOf\<close> is
  \<open>-1\<close>.
\<close>

definition getNextUnsentMedia ::
  "chat \<Rightarrow> 'a list \<Rightarrow> nat \<Rightarrow> tracking \<Rightarrow> 'a option \<times> tracking" where
  "getNextUnsentMedia chatId mediaList u tr =
     (let sent = sent_of tr chatId;
          tr1 = tr(chatId \<mapsto> sent);
          unsentMedia = filter_js (\<lambda>media index. int index \<notin> sent) mediaList
      in if length unsentMedia = 0
         then (js_nth mediaList (rand_index u (length mediaList)), tr1(chatId \<mapsto> {}))
         else
           (let selectedMedia = js_nth unsentMedia (rand_index u (length unsentMedia));
                index = (case selectedMedia of None \<Rightarrow> -1 | Some m \<Rightarrow> indexOf mediaList m)
            in (selectedMedia, tr1(chatId \<mapsto> insert index sent))))"

text \<open>Successive draws for one chat from the same list, one random number per draw.\<close>

fun draws :: "chat \<Rightarrow> 'a list \<Rightarrow> nat list \<Rightarrow> tracking \<Rightarrow> 'a option list \<times> tracking" where
  "draws chatId mediaList [] tr = ([], tr)"
| "draws chatId mediaList (u # us) tr =
     (case getNextUnsentMedia chatId mediaList u tr of
        (r, tr1) \<Rightarrow> (case draws chatId mediaList us tr1 of (rs, tr2) \<Rightarrow> (r # rs, tr2)))"

section \<open>Persistence\<close>

text \<open>
  \<open>fs.writeJsonSync\<close> replaces the file's contents by a snapshot of the whole collection.
  The write is taken to succeed.
\<close>

definition saveVideos :: "state \<Rightarrow> state" where
  "saveVideos s = s\<lparr>videosFile := videos s\<rparr>"

definition saveImages :: "state \<Rightarrow> state" where
  "saveImages s = s\<lparr>imagesFile := images s\<rparr>"

definition saveScheduleData :: "state \<Rightarrow> state" where
  "saveScheduleData s = s\<lparr>schedulesFile := scheduleData s\<rparr>"

section \<open>Job scheduler\<close>

text \<open>
  \<open>createScheduledJob\<close>: cancel the chat's job if there is one, arm a new job, store the
  handle and the schedule data, and save. \<open>scheduleJob\<close> is taken to return a job for the
  rule it is given.
\<close>

definition createScheduledJob :: "chat \<Rightarrow> int \<Rightarrow> string \<Rightarrow> timestamp \<Rightarrow> state \<Rightarrow> state" where
  "createScheduledJob chatId ival mtype now s =
     (let s1 = (case schedules s chatId of
                  Some old \<Rightarrow> s\<lparr>timers := (timers s)(old := None)\<rparr>
                | None \<Rightarrow> s);
          jb = nextJob s1;
          s2 = s1\<lparr>timers := (timers s1)(jb \<mapsto>
                    \<lparr>job_chat = chatId, job_interval = ival, job_mediaType = mtype\<rparr>),
                  nextJob := Suc jb\<rparr>;
          s3 = s2\<lparr>schedules := (schedules s2)(chatId \<mapsto> jb)\<rparr>;
          s4 = s3\<lparr>scheduleData := AList.update chatId
                    \<lparr>interval = ival, mediaType = mtype, createdAt = now\<rparr> (scheduleData s3)\<rparr>
      in saveScheduleData s4)"

text \<open>The calls the job's callback makes on the messaging transport.\<close>

datatype dispatch = SendVideo chat string string | SendPhoto chat string string

fun dispatch_chat :: "dispatch \<Rightarrow> chat" where
  "dispatch_chat (SendVideo c i cap) = c"
| "dispatch_chat (SendPhoto c i cap) = c"

text \<open>
  What one run of the callback does: a call on the transport; nothing, for an entry that
  is neither a video nor an image; the log line for an empty list; or the \<open>TypeError\<close> of
  reading \<open>randomMedia.type\<close> when \<open>randomMedia\<close> is \<open>undefined\<close>.
\<close>

datatype tick_outcome = Dispatched dispatch | NoDispatch | NoMedia | TypeError

text \<open>The \<open>switch\<close> on the media type; \<open>mediaToSend\<close> stays \<open>[]\<close> when no case matches.\<close>

definition mediaToSend :: "string \<Rightarrow> state \<Rightarrow> media list" where
  "mediaToSend mtype s =
     (if mtype = ''videos'' then videos s
      else if mtype = ''images'' then images s
      else if mtype = ''mix'' then videos s @ images s
      else [])"

definition onTick :: "job \<Rightarrow> nat \<Rightarrow> state \<Rightarrow> tick_outcome \<times> state" where
  "onTick jb u s =
     (let ms = mediaToSend (job_mediaType jb) s
      in if length ms > 0
         then (case getNextUnsentMedia (job_chat jb) ms u (sentMediaTracking s) of
                 (None, tr) \<Rightarrow> (TypeError, s\<lparr>sentMediaTracking := tr\<rparr>)
               | (Some randomMedia, tr) \<Rightarrow>
                   (if type_m randomMedia = ''video''
                    then Dispatched (SendVideo (job_chat jb) (id_m randomMedia) (caption randomMedia))
                    else if type_m randomMedia = ''image''
                    then Dispatched (SendPhoto (job_chat jb) (id_m randomMedia) (caption randomMedia))
                    else NoDispatch,
                    s\<lparr>sentMediaTracking := tr\<rparr>))
         else (NoMedia, s))"

text \<open>
  The timer library runs the callback of a job only while the job is armed: a tick of a
  handle that is not in \<open>timers\<close> does nothing.
\<close>

definition fire :: "nat \<Rightarrow> nat \<Rightarrow> state \<Rightarrow> tick_outcome option \<times> state" where
  "fire h u s =
     (case timers s h of
        None \<Rightarrow> (None, s)
      | Some jb \<Rightarrow> (case onTick jb u s of (out, s') \<Rightarrow> (Some out, s')))"

text \<open>Any number of timer periods: a list of ticks, each a handle and a random number.\<close>

fun fires :: "(nat \<times> nat) list \<Rightarrow> state \<Rightarrow> tick_outcome option list \<times> state" where
  "fires [] s = ([], s)"
| "fires ((h, u) # ts) s =
     (case fire h u s of (out, s1) \<Rightarrow> (case fires ts s1 of (outs, s2) \<Rightarrow> (out # outs, s2)))"

text \<open>
  Program start: the collections are read from the files, no job exists, and the loop
  over the keys of \<open>scheduleData\<close> recreates the jobs; \<open>recreateJob\<close> is the body of the
  loop. \<open>clock\<close> gives the time read while the job of a chat is created.
\<close>

definition boot :: "media list \<Rightarrow> media list \<Rightarrow> (chat \<times> schedule_entry) list \<Rightarrow> state" where
  "boot vf imf sf =
     \<lparr>videos = vf, images = imf, schedules = Map.empty, scheduleData = sf,
      sentMediaTracking = Map.empty, videosFile = vf, imagesFile = imf, schedulesFile = sf,
      timers = Map.empty, nextJob = 0\<rparr>"

definition recreateJob :: "(chat \<Rightarrow> timestamp) \<Rightarrow> chat \<Rightarrow> state \<Rightarrow> state" where
  "recreateJob clock chatId s =
     (case map_of (scheduleData s) chatId of
        None \<Rightarrow> s
      | Some e \<Rightarrow> createScheduledJob chatId (interval e) (mediaType e) (clock chatId) s)"

definition recreateJobs :: "(chat \<Rightarrow> timestamp) \<Rightarrow> state \<Rightarrow> state" where
  "recreateJobs clock s = fold (recreateJob clock) (map fst (scheduleData s)) s"

definition startup ::
  "(chat \<Rightarrow> timestamp) \<Rightarrow> media list \<Rightarrow> media list \<Rightarrow> (chat \<times> schedule_entry) list \<Rightarrow> state" where
  "startup clock vf imf sf = recreateJobs clock (boot vf imf sf)"

text \<open>The clock of a restart during which every reading of the time gives \<open>t\<close>.\<close>

definition restart_at :: "timestamp \<Rightarrow> chat \<Rightarrow> timestamp" where
  "restart_at t chatId = t"

section \<open>Command handlers\<close>

text \<open>
  The handlers answer with fixed messages; the model names each message. Parsing the
  message text is outside the model: a handler takes what \<open>parseInt\<close> returned, a number
  or \<open>NaN\<close>.
\<close>

datatype jsnum = NaN | Num int

text \<open>Comparisons with \<open>NaN\<close> are false; \<open>NaN - 1\<close> is \<open>NaN\<close>.\<close>

fun js_lt :: "jsnum \<Rightarrow> int \<Rightarrow> bool" where
  "js_lt NaN b = False"
| "js_lt (Num a) b = (a < b)"

fun js_ge :: "jsnum \<Rightarrow> int \<Rightarrow> bool" where
  "js_ge NaN b = False"
| "js_ge (Num a) b = (a \<ge> b)"

fun js_gt :: "jsnum \<Rightarrow> int \<Rightarrow> bool" where
  "js_gt NaN b = False"
| "js_gt (Num a) b = (a > b)"

fun js_le2 :: "jsnum \<Rightarrow> jsnum \<Rightarrow> bool" where
  "js_le2 (Num a) (Num b) = (a \<le> b)"
| "js_le2 a b = False"

fun minus1 :: "jsnum \<Rightarrow> jsnum" where
  "minus1 NaN = NaN"
| "minus1 (Num a) = Num (a - 1)"

fun num_val :: "jsnum \<Rightarrow> int" where
  "num_val NaN = 0"
| "num_val (Num a) = a"

datatype reply =
    OnlyAdmin            \<comment> \<open>Only admin can add videos / images.\<close>
  | NotAuthorized        \<comment> \<open>You are not authorized to use this command.\<close>
  | AlreadyExists "media option"  \<comment> \<open>This video / image already exists in the collection!\<close>
  | Added                \<comment> \<open>Video / Image added successfully!\<close>
  | InvalidCommand       \<comment> \<open>Invalid command. Use the delete links provided\<close>
  | InvalidMediaIndex    \<comment> \<open>Invalid video / image index.\<close>
  | Deleted              \<comment> \<open>Video / Image deleted successfully!\<close>
  | NothingToDelete      \<comment> \<open>No videos / images to delete.\<close>
  | PleaseSpecify        \<comment> \<open>Please specify videos / images to delete.\<close>
  | InvalidRange         \<comment> \<open>Invalid range. Please check the indices and try again.\<close>
  | InvalidRangeFormat   \<comment> \<open>Invalid range format.\<close>
  | InvalidIndices       \<comment> \<open>One or more indices are invalid.\<close>
  | InvalidIndex         \<comment> \<open>Invalid index. Please check and try again.\<close>
  | InvalidFormat        \<comment> \<open>Invalid format.\<close>
  | DeletedMany nat      \<comment> \<open>Successfully deleted n video(s) / image(s)!\<close>
  | Scheduled string int \<comment> \<open>Scheduled! I will send ... every n minutes.\<close>
  | EnterValidNumber     \<comment> \<open>Please enter a valid number for the interval\<close>
  | GroupsOnly           \<comment> \<open>This command is meant to be used in groups\<close>
  | Stopped              \<comment> \<open>Stopped scheduled media sending.\<close>
  | NothingToStop        \<comment> \<open>No scheduled media sending found for this group.\<close>

subsection \<open>Adding media\<close>

text \<open>\<open>Array.prototype.findIndex\<close>: the first position satisfying the test, or \<open>-1\<close>.\<close>

fun findIndex :: "('a \<Rightarrow> bool) \<Rightarrow> 'a list \<Rightarrow> int" where
  "findIndex P [] = -1"
| "findIndex P (y # ys) =
     (if P y then 0 else (let r = findIndex P ys in if r < 0 then -1 else r + 1))"

definition on_video :: "bool \<Rightarrow> string \<Rightarrow> string \<Rightarrow> timestamp \<Rightarrow> state \<Rightarrow> reply \<times> state" where
  "on_video isAdmin videoId cap now s =
     (if \<not> isAdmin then (OnlyAdmin, s)
      else
        (let existingVideoIndex = findIndex (\<lambda>video. id_m video = videoId) (videos s)
         in if existingVideoIndex \<noteq> -1
            then (AlreadyExists (js_nth (videos s) (nat existingVideoIndex)), s)
            else (Added,
                  saveVideos (s\<lparr>videos := videos s @
                    [\<lparr>id_m = videoId, type_m = ''video'', caption = cap, addedAt = now\<rparr>]\<rparr>))))"

definition on_photo :: "bool \<Rightarrow> string \<Rightarrow> string \<Rightarrow> timestamp \<Rightarrow> state \<Rightarrow> reply \<times> state" where
  "on_photo isAdmin photoId cap now s =
     (if \<not> isAdmin then (OnlyAdmin, s)
      else
        (let existingImageIndex = findIndex (\<lambda>image. id_m image = photoId) (images s)
         in if existingImageIndex \<noteq> -1
            then (AlreadyExists (js_nth (images s) (nat existingImageIndex)), s)
            else (Added,
                  saveImages (s\<lparr>images := images s @
                    [\<lparr>id_m = photoId, type_m = ''image'', caption = cap, addedAt = now\<rparr>]\<rparr>))))"

subsection \<open>Deleting media\<close>

text \<open>
  \<open>xs.splice(start, 1)\<close>: \<open>NaN\<close> counts as \<open>0\<close>, a negative start counts from the end, and
  the start is clamped to the length. The result is the removed element (\<open>undefined\<close>
  when nothing is removed) and the array that remains.
\<close>

definition splice1 :: "jsnum \<Rightarrow> 'a list \<Rightarrow> 'a option \<times> 'a list" where
  "splice1 start xs =
     (let len = int (length xs);
          rel = num_val start;
          k = nat (if rel < 0 then max (len + rel) 0 else min rel len)
      in (js_nth xs k, take k xs @ drop (Suc k) xs))"

text \<open>
  \<open>/deletevideo\<close>: the argument is \<open>None\<close> when the text does not split into two parts at
  \<open>_\<close> or the second part is not numeric, and otherwise \<open>parseInt\<close> of the second part.
\<close>

definition deletevideo :: "bool \<Rightarrow> jsnum option \<Rightarrow> state \<Rightarrow> reply \<times> state" where
  "deletevideo isAdmin arg s =
     (if \<not> isAdmin then (NotAuthorized, s)
      else case arg of
        None \<Rightarrow> (InvalidCommand, s)
      | Some index \<Rightarrow>
          if js_lt index 0 \<or> js_ge index (int (length (videos s))) then (InvalidMediaIndex, s)
          else (case splice1 index (videos s) of
                  (deletedVideo, vs) \<Rightarrow> (Deleted, saveVideos (s\<lparr>videos := vs\<rparr>))))"

definition deleteimage :: "bool \<Rightarrow> jsnum option \<Rightarrow> state \<Rightarrow> reply \<times> state" where
  "deleteimage isAdmin arg s =
     (if \<not> isAdmin then (NotAuthorized, s)
      else case arg of
        None \<Rightarrow> (InvalidCommand, s)
      | Some index \<Rightarrow>
          if js_lt index 0 \<or> js_ge index (int (length (images s))) then (InvalidMediaIndex, s)
          else (case splice1 index (images s) of
                  (deletedImage, ims) \<Rightarrow> (Deleted, saveImages (s\<lparr>images := ims\<rparr>))))"

text \<open>
  The argument of \<open>/deletevideos\<close> and \<open>/deleteimages\<close>, by the branch the text takes:
  empty; with a \<open>-\<close> and two numeric parts (their \<open>parseInt\<close>s); with a \<open>-\<close> otherwise; with
  a \<open>,\<close> (the \<open>parseInt\<close> of every piece); numeric (its \<open>parseInt\<close>); anything else.
\<close>

datatype del_arg =
    NoText
  | RangeArg jsnum jsnum
  | BadRange
  | ListArg "jsnum list"
  | SingleArg jsnum
  | OtherText

text \<open>An index that passes the test \<open>idx >= 0 && idx < length\<close>.\<close>

definition in_range :: "nat \<Rightarrow> jsnum \<Rightarrow> bool" where
  "in_range len idx \<longleftrightarrow> js_ge idx 0 \<and> js_lt idx (int len)"

text \<open>
  The part of both handlers that builds \<open>indicesToDelete\<close> (0-based) for a collection of
  \<open>len\<close> entries, or answers with an error.
\<close>

definition indicesToDelete :: "nat \<Rightarrow> del_arg \<Rightarrow> reply + int list" where
  "indicesToDelete len arg =
     (case arg of
        NoText \<Rightarrow> Inl PleaseSpecify
      | RangeArg a b \<Rightarrow>
          (let start = minus1 a; end = minus1 b
           in if js_ge start 0 \<and> js_lt end (int len) \<and> js_le2 start end
              then Inr [num_val start ..num_val end]
              else Inl InvalidRange)
      | BadRange \<Rightarrow> Inl InvalidRangeFormat
      | ListArg indices \<Rightarrow>
          (let valid = filter (in_range len) (map minus1 indices)
           in if length valid \<noteq> length indices then Inl InvalidIndices
              else Inr (map num_val valid))
      | SingleArg a \<Rightarrow>
          (let index = minus1 a
           in if in_range len index then Inr [num_val index] else Inl InvalidIndex)
      | OtherText \<Rightarrow> Inl InvalidFormat)"

text \<open>\<open>indicesToDelete.sort((a, b) => b - a)\<close>: descending order.\<close>

definition sort_desc :: "int list \<Rightarrow> int list" where
  "sort_desc xs = rev (sort xs)"

text \<open>The loop that splices the indices out one after the other.\<close>

fun splice_all :: "int list \<Rightarrow> 'a list \<Rightarrow> 'a option list \<times> 'a list" where
  "splice_all [] xs = ([], xs)"
| "splice_all (i # is) xs =
     (case splice1 (Num i) xs of
        (d, xs1) \<Rightarrow> (case splice_all is xs1 of (ds, xs2) \<Rightarrow> (d # ds, xs2)))"

definition deletevideos :: "bool \<Rightarrow> del_arg \<Rightarrow> state \<Rightarrow> reply \<times> state" where
  "deletevideos isAdmin arg s =
     (if \<not> isAdmin then (NotAuthorized, s)
      else if length (videos s) = 0 then (NothingToDelete, s)
      else case indicesToDelete (length (videos s)) arg of
        Inl r \<Rightarrow> (r, s)
      | Inr idxs \<Rightarrow>
          (case splice_all (sort_desc idxs) (videos s) of
             (deletedVideos, vs) \<Rightarrow>
               (DeletedMany (length deletedVideos), saveVideos (s\<lparr>videos := vs\<rparr>))))"

definition deleteimages :: "bool \<Rightarrow> del_arg \<Rightarrow> state \<Rightarrow> reply \<times> state" where
  "deleteimages isAdmin arg s =
     (if \<not> isAdmin then (NotAuthorized, s)
      else if length (images s) = 0 then (NothingToDelete, s)
      else case indicesToDelete (length (images s)) arg of
        Inl r \<Rightarrow> (r, s)
      | Inr idxs \<Rightarrow>
          (case splice_all (sort_desc idxs) (images s) of
             (deletedImages, ims) \<Rightarrow>
               (DeletedMany (length deletedImages), saveImages (s\<lparr>images := ims\<rparr>))))"

subsection \<open>Scheduling and stopping\<close>

text \<open>
  The text handler: \<open>selected\<close> is \<open>ctx.session.selectedMediaType\<close> (\<open>None\<close> without a
  session or a selection; the empty string counts as no selection), \<open>num\<close> is \<open>None\<close> for a
  text that is empty or not numeric and otherwise its \<open>parseInt\<close>. The result holds the
  answer, if any, the selection left in the session, and the state.
\<close>

definition mediaTypeName :: "string \<Rightarrow> string" where
  "mediaTypeName mtype =
     (if mtype = ''videos'' then ''videos''
      else if mtype = ''images'' then ''images''
      else if mtype = ''mix'' then ''mixed videos and images''
      else [])"

definition on_text ::
  "chat \<Rightarrow> string option \<Rightarrow> jsnum option \<Rightarrow> timestamp \<Rightarrow> state
     \<Rightarrow> reply option \<times> string option \<times> state" where
  "on_text chatId selected num now s =
     (case selected of
        None \<Rightarrow> (None, selected, s)
      | Some mtype \<Rightarrow>
          if mtype = [] then (None, selected, s)
          else
            (case num of
               None \<Rightarrow> (Some EnterValidNumber, selected, s)
             | Some n \<Rightarrow>
                 if js_gt n 0
                 then (Some (Scheduled (mediaTypeName mtype) (num_val n)), None,
                       createScheduledJob chatId (num_val n) mtype now s)
                 else (Some EnterValidNumber, selected, s)))"

text \<open>The \<open>/stop\<close> command; \<open>ctype\<close> is \<open>ctx.chat.type\<close>.\<close>

definition stop_command :: "string \<Rightarrow> chat \<Rightarrow> state \<Rightarrow> reply \<times> state" where
  "stop_command ctype chatId s =
     (if ctype = ''private'' then (GroupsOnly, s)
      else case schedules s chatId of
        Some jb \<Rightarrow>
          (let s1 = s\<lparr>timers := (timers s)(jb := None)\<rparr>;
               s2 = s1\<lparr>schedules := (schedules s1)(chatId := None)\<rparr>;
               s3 = s2\<lparr>scheduleData := AList.delete chatId (scheduleData s2)\<rparr>;
               s4 = saveScheduleData s3
           in (Stopped, s4\<lparr>sentMediaTracking := (sentMediaTracking s4)(chatId := None)\<rparr>))
      | None \<Rightarrow>
          (case map_of (scheduleData s) chatId of
             Some e \<Rightarrow>
               (let s1 = s\<lparr>scheduleData := AList.delete chatId (scheduleData s)\<rparr>;
                    s2 = saveScheduleData s1
                in (Stopped, s2\<lparr>sentMediaTracking := (sentMediaTracking s2)(chatId := None)\<rparr>))
           | None \<Rightarrow> (NothingToStop, s)))"

section \<open>Runs of the bot\<close>

text \<open>
  The events that can change the state: the handlers above with their inputs, and a tick
  of the timer library. The other commands only answer.
\<close>

datatype event =
    EvVideo bool string string timestamp
  | EvPhoto bool string string timestamp
  | EvDeleteVideo bool "jsnum option"
  | EvDeleteImage bool "jsnum option"
  | EvDeleteVideos bool del_arg
  | EvDeleteImages bool del_arg
  | EvText chat "string option" "jsnum option" timestamp
  | EvStop string chat
  | EvTick nat nat

fun handle :: "event \<Rightarrow> state \<Rightarrow> state" where
  "handle (EvVideo a i c t) s = snd (on_video a i c t s)"
| "handle (EvPhoto a i c t) s = snd (on_photo a i c t s)"
| "handle (EvDeleteVideo a x) s = snd (deletevideo a x s)"
| "handle (EvDeleteImage a x) s = snd (deleteimage a x s)"
| "handle (EvDeleteVideos a x) s = snd (deletevideos a x s)"
| "handle (EvDeleteImages a x) s = snd (deleteimages a x s)"
| "handle (EvText c sel n t) s = snd (snd (on_text c sel n t s))"
| "handle (EvStop ty c) s = snd (stop_command ty c s)"
| "handle (EvTick h u) s = snd (fire h u s)"

definition run :: "event list \<Rightarrow> state \<Rightarrow> state" where
  "run evs s = fold handle evs s"

text \<open>The armed jobs whose callback sends to a chat.\<close>

definition timers_of :: "state \<Rightarrow> chat \<Rightarrow> (nat \<times> job) set" where
  "timers_of s c = {(h, jb). timers s h = Some jb \<and> job_chat jb = c}"

text \<open>Every collection in memory equals the contents of its file.\<close>

definition durable :: "state \<Rightarrow> bool" where
  "durable s \<longleftrightarrow>
     videosFile s = videos s \<and> imagesFile s = images s \<and> schedulesFile s = scheduleData s"

text \<open>
  The job table is consistent: an armed job is the one its chat's handle names, a handle
  names only a job of its own chat, and handles not yet issued are unused.
\<close>

definition wf :: "state \<Rightarrow> bool" where
  "wf s \<longleftrightarrow>
     (\<forall>h jb. timers s h = Some jb \<longrightarrow> schedules s (job_chat jb) = Some h) \<and>
     (\<forall>c h jb. schedules s c = Some h \<longrightarrow> timers s h = Some jb \<longrightarrow> job_chat jb = c) \<and>
     (\<forall>c h. schedules s c = Some h \<longrightarrow> h < nextJob s)"

text \<open>
  The state of the startup loop after the chats in \<open>D\<close> have been handled, for the
  registry \<open>sf\<close> read from the file: the keys are those of \<open>sf\<close>, the registry is written,
  an entry of a handled chat differs from the one read only in its \<open>createdAt\<close>, and
  exactly the handled chats have a job, one each, with the interval and media type read.
\<close>

definition rearmed ::
  "(chat \<Rightarrow> timestamp) \<Rightarrow> (chat \<times> schedule_entry) list \<Rightarrow> chat set \<Rightarrow> state \<Rightarrow> bool" where
  "rearmed clock sf D s \<longleftrightarrow>
     wf s \<and> map fst (scheduleData s) = map fst sf \<and> schedulesFile s = scheduleData s \<and>
     (\<forall>c e. map_of sf c = Some e \<longrightarrow>
        map_of (scheduleData s) c = Some (if c \<in> D then e\<lparr>createdAt := clock c\<rparr> else e)) \<and>
     (\<forall>c e. map_of sf c = Some e \<longrightarrow> c \<in> D \<longrightarrow>
        (\<exists>h. schedules s c = Some h \<and> timers_of s c =
          {(h, \<lparr>job_chat = c, job_interval = interval e, job_mediaType = mediaType e\<rparr>)})) \<and>
     (\<forall>c. c \<notin> D \<longrightarrow> timers_of s c = {})"

text \<open>
  The pools as the handlers build them: no two entries of a pool share a file id, the
  entries of \<open>videos\<close> are videos and those of \<open>images\<close> are images.
\<close>

definition pool_ok :: "state \<Rightarrow> bool" where
  "pool_ok s \<longleftrightarrow>
     distinct (map id_m (videos s)) \<and> distinct (map id_m (images s)) \<and>
     (\<forall>v \<in> set (videos s). type_m v = ''video'') \<and>
     (\<forall>v \<in> set (images s). type_m v = ''image'')"

text \<open>Entries for the concrete scenarios.\<close>

abbreviation vid :: "string \<Rightarrow> media" where
  "vid i \<equiv> \<lparr>id_m = i, type_m = ''video'', caption = [], addedAt = ''t0''\<rparr>"

abbreviation img :: "string \<Rightarrow> media" where
  "img i \<equiv> \<lparr>id_m = i, type_m = ''image'', caption = [], addedAt = ''t0''\<rparr>"

section \<open>Properties of the delivery tracker\<close>

lemma indexOf_nth: "distinct xs \<Longrightarrow> i < length xs \<Longrightarrow> indexOf xs (xs ! i) = int i"
proof (induction xs arbitrary: i)
  case Nil
  then show ?case by simp
next
  case (Cons y ys)
  show ?case
  proof (cases i)
    case 0
    then show ?thesis by simp
  next
    case (Suc k)
    with Cons.prems have k: "k < length ys" and d: "distinct ys" and ny: "y \<notin> set ys" by auto
    from k ny have "y \<noteq> ys ! k" by (metis nth_mem)
    with Cons.IH[OF d k] Suc show ?thesis by (simp add: Let_def)
  qed
qed

lemma filter_js_nth:
  assumes "k < length (filter_js P xs)"
  shows "\<exists>i < length xs. P (xs ! i) i \<and> filter_js P xs ! k = xs ! i"
proof -
  let ?f = "filter (\<lambda>(x, i). P x i) (zip xs [0..<length xs])"
  from assms have k: "k < length ?f" by (simp add: filter_js_def)
  then have m: "?f ! k \<in> set ?f" by (rule nth_mem)
  obtain x i where p: "?f ! k = (x, i)" by (cases "?f ! k")
  from m p have "(x, i) \<in> set (zip xs [0..<length xs])" and "P x i" by auto
  then have "i < length xs" and "x = xs ! i"
    by (auto simp: set_zip)
  moreover have "filter_js P xs ! k = x" using k p by (simp add: filter_js_def)
  ultimately show ?thesis using \<open>P x i\<close> by blast
qed

lemma filter_js_empty_iff:
  "filter_js P xs = [] \<longleftrightarrow> (\<forall>i < length xs. \<not> P (xs ! i) i)"
proof
  assume e: "filter_js P xs = []"
  show "\<forall>i < length xs. \<not> P (xs ! i) i"
  proof (intro allI impI notI)
    fix i assume i: "i < length xs" and p: "P (xs ! i) i"
    then have "(xs ! i, i) \<in> set (zip xs [0..<length xs])"
      by (force simp: set_zip)
    with p e show False by (auto simp: filter_js_def filter_empty_conv)
  qed
next
  assume "\<forall>i < length xs. \<not> P (xs ! i) i"
  then show "filter_js P xs = []"
    by (auto simp: filter_js_def filter_empty_conv set_zip)
qed

lemma rand_index_less: "0 < n \<Longrightarrow> rand_index u n < n"
  by (simp add: rand_index_def)

lemma sent_of_upd: "sent_of (tr(c \<mapsto> S)) c = S"
  by (simp add: sent_of_def)

text \<open>A draw while some position is unmarked selects an unmarked position and marks it.\<close>

lemma getNext_fresh_step:
  assumes d: "distinct L" and ne: "filter_js (\<lambda>media index. int index \<notin> sent_of tr c) L \<noteq> []"
  shows "\<exists>i < length L. int i \<notin> sent_of tr c \<and>
     getNextUnsentMedia c L u tr = (Some (L ! i), tr(c \<mapsto> insert (int i) (sent_of tr c)))"
proof -
  let ?S = "sent_of tr c"
  let ?un = "filter_js (\<lambda>media index. int index \<notin> ?S) L"
  let ?k = "rand_index u (length ?un)"
  from ne have k: "?k < length ?un" by (simp add: rand_index_less)
  from filter_js_nth[OF k] obtain i where i: "i < length L" "int i \<notin> ?S" "?un ! ?k = L ! i"
    by blast
  have "js_nth ?un ?k = Some (L ! i)" using k i by (simp add: js_nth_def)
  moreover have "indexOf L (L ! i) = int i" using d i by (simp add: indexOf_nth)
  ultimately have "getNextUnsentMedia c L u tr = (Some (L ! i), tr(c \<mapsto> insert (int i) ?S))"
    using ne by (simp add: getNextUnsentMedia_def Let_def)
  with i show ?thesis by blast
qed

text \<open>A draw with every position marked clears the marks and records nothing.\<close>

lemma getNext_exhausted:
  assumes "filter_js (\<lambda>media index. int index \<notin> sent_of tr c) L = []"
  shows "getNextUnsentMedia c L u tr = (js_nth L (rand_index u (length L)), tr(c \<mapsto> {}))"
  using assms by (simp add: getNextUnsentMedia_def Let_def)

lemma draws_cycle:
  assumes d: "distinct L"
  shows "sent_of tr c = S \<Longrightarrow> S \<subseteq> int ` {0..<length L} \<Longrightarrow> length us + card S = length L \<Longrightarrow>
     \<exists>js tr'. draws c L us tr = (map (\<lambda>i. Some (L ! i)) js, tr')
        \<and> sent_of tr' c = int ` {0..<length L}
        \<and> distinct js \<and> set js = {i. i < length L \<and> int i \<notin> S}"
proof (induction us arbitrary: tr S)
  case Nil
  have fin: "finite (int ` {0..<length L})" by simp
  from Nil have "card S = card (int ` {0..<length L})" by (simp add: card_image)
  with Nil.prems(2) fin have S: "S = int ` {0..<length L}" by (simp add: card_subset_eq)
  then have "{i. i < length L \<and> int i \<notin> S} = {}" by auto
  with S Nil.prems(1) show ?case by simp
next
  case (Cons u us)
  let ?n = "length L"
  have fin: "finite S" using Cons.prems(2) by (rule finite_subset) simp
  have "\<exists>i < ?n. int i \<notin> S"
  proof (rule ccontr)
    assume "\<not> (\<exists>i < ?n. int i \<notin> S)"
    then have "int ` {0..<?n} \<subseteq> S" by auto
    with Cons.prems(2) have "S = int ` {0..<?n}" by auto
    then have "card S = ?n" by (simp add: card_image)
    with Cons.prems(3) show False by simp
  qed
  then have ne: "filter_js (\<lambda>media index. int index \<notin> sent_of tr c) L \<noteq> []"
    using Cons.prems(1) by (simp add: filter_js_empty_iff)
  from getNext_fresh_step[OF d ne, of u] Cons.prems(1)
  obtain i where i: "i < ?n" "int i \<notin> S"
    and g: "getNextUnsentMedia c L u tr = (Some (L ! i), tr(c \<mapsto> insert (int i) S))"
    by auto
  let ?tr1 = "tr(c \<mapsto> insert (int i) S)"
  let ?S1 = "insert (int i) S"
  have s1: "sent_of ?tr1 c = ?S1" by (rule sent_of_upd)
  have sub: "?S1 \<subseteq> int ` {0..<?n}" using Cons.prems(2) i by auto
  have cnt: "length us + card ?S1 = ?n" using Cons.prems(3) fin i by simp
  from Cons.IH[OF s1 sub cnt] obtain js tr' where
    dr: "draws c L us ?tr1 = (map (\<lambda>i. Some (L ! i)) js, tr')"
    and fi: "sent_of tr' c = int ` {0..<?n}"
    and dj: "distinct js" and sj: "set js = {j. j < ?n \<and> int j \<notin> ?S1}"
    by blast
  have "draws c L (u # us) tr = (map (\<lambda>i. Some (L ! i)) (i # js), tr')"
    using g dr by simp
  moreover have "distinct (i # js)" using dj sj by simp
  moreover have "set (i # js) = {j. j < ?n \<and> int j \<notin> S}" using sj i by auto
  ultimately show ?case using fi by blast
qed

lemma nth_image_eq: "(\<lambda>i. L ! i) ` {i. i < length L} = set L"
  by (auto simp: set_conv_nth)

text \<open>
  Claim C1. For a chat whose tracker is new or empty and a non-empty list \<open>L\<close> of \<open>n\<close>
  pairwise different entries (the entries of the pools are different objects, and
  \<open>indexOf\<close> compares by identity; \<open>mediaToSend_distinct\<close> below shows that the lists a job
  draws from are of this kind), the first \<open>n\<close> draws, whatever the random numbers, return
  \<open>n\<close> different items which together are exactly the items of \<open>L\<close>; and the draw after
  them can return any item of \<open>L\<close>.
\<close>

theorem first_cycle_covers_list_once:
  assumes d: "distinct L" and ne: "L \<noteq> []" and len: "length us = length L"
    and fresh: "tr c = None \<or> tr c = Some {}"
  shows "\<exists>rs tr'. draws c L us tr = (rs, tr') \<and> length rs = length L \<and> distinct rs
      \<and> set rs = Some ` set L
      \<and> (\<forall>x \<in> set L. \<exists>u. fst (getNextUnsentMedia c L u tr') = Some x)"
proof -
  from fresh have s0: "sent_of tr c = {}" by (auto simp: sent_of_def)
  from draws_cycle[OF d s0, of us] len obtain js tr' where
    dr: "draws c L us tr = (map (\<lambda>i. Some (L ! i)) js, tr')"
    and fi: "sent_of tr' c = int ` {0..<length L}"
    and dj: "distinct js" and sj: "set js = {i. i < length L}"
    by auto
  let ?rs = "map (\<lambda>i. Some (L ! i)) js"
  have l: "length ?rs = length L"
  proof -
    from dj have "length js = card (set js)" by (simp add: distinct_card)
    also have "\<dots> = length L" using sj by simp
    finally show ?thesis by simp
  qed
  have inj: "inj_on (\<lambda>i. Some (L ! i)) (set js)"
    using d sj by (auto simp: inj_on_def nth_eq_iff_index_eq)
  have dr': "distinct ?rs" using dj inj by (simp add: distinct_map)
  have "set ?rs = Some ` ((\<lambda>i. L ! i) ` set js)" by (simp add: image_image)
  then have sr: "set ?rs = Some ` set L" using sj nth_image_eq[of L] by simp
  have ex: "filter_js (\<lambda>media index. int index \<notin> sent_of tr' c) L = []"
    using fi by (simp add: filter_js_empty_iff)
  have rep: "\<forall>x \<in> set L. \<exists>u. fst (getNextUnsentMedia c L u tr') = Some x"
  proof
    fix x assume "x \<in> set L"
    then obtain i where i: "i < length L" "L ! i = x" by (auto simp: in_set_conv_nth)
    then have "rand_index i (length L) = i" by (auto simp: rand_index_def)
    with i have "fst (getNextUnsentMedia c L i tr') = Some x"
      by (simp add: getNext_exhausted[OF ex] js_nth_def)
    then show "\<exists>u. fst (getNextUnsentMedia c L u tr') = Some x" ..
  qed
  from dr l dr' sr rep show ?thesis by blast
qed

theorem first_cycle_covers_list_once_witness:
  "distinct [''A'', ''B'', ''C''] \<and> length [0, 0, 0 :: nat] = length [''A'', ''B'', ''C'']
   \<and> fst (draws ''X'' [''A'', ''B'', ''C''] [0, 0, 0] Map.empty)
       = [Some ''A'', Some ''B'', Some ''C'']
   \<and> (\<exists>rs tr'. draws ''X'' [''A'', ''B'', ''C''] [0, 0, 0] Map.empty = (rs, tr')
        \<and> length rs = 3 \<and> distinct rs \<and> set rs = {Some ''A'', Some ''B'', Some ''C''})"
  using first_cycle_covers_list_once [of "[''A'', ''B'', ''C'']" "[0, 0, 0]" Map.empty "''X''"]
  by (auto simp: getNextUnsentMedia_def filter_js_def sent_of_def js_nth_def rand_index_def
      Let_def upt_rec)

text \<open>
  Claim C2. The draw made when every position is marked does not record the position it
  selects: \<open>getNextUnsentMedia\<close> returns from inside the reset branch, before the lines
  that mark the selection. With the list \<open>[A, B]\<close> and both positions marked, the draw
  returns \<open>A\<close> and leaves the chat's set empty, not \<open>{0}\<close>; so four draws from a new
  tracker can return \<open>A, B, A, A\<close>.
\<close>

theorem exhaustion_draw_is_not_recorded:
  "getNextUnsentMedia ''X'' [''A'', ''B''] 0 [''X'' \<mapsto> {0, 1}] = (Some ''A'', [''X'' \<mapsto> {}])
   \<and> fst (draws ''X'' [''A'', ''B''] [0, 0, 0, 0] Map.empty)
       = [Some ''A'', Some ''B'', Some ''A'', Some ''A'']"
  by (simp add: getNextUnsentMedia_def filter_js_def sent_of_def js_nth_def rand_index_def
      Let_def upt_rec)

lemma getNext_nonempty_defined:
  assumes "L \<noteq> []"
  shows "\<exists>m. fst (getNextUnsentMedia c L u tr) = Some m"
proof (cases "filter_js (\<lambda>media index. int index \<notin> sent_of tr c) L = []")
  case True
  from assms have "rand_index u (length L) < length L" by (simp add: rand_index_less)
  then show ?thesis by (simp add: getNext_exhausted[OF True] js_nth_def)
next
  case False
  then have "rand_index u (length (filter_js (\<lambda>media index. int index \<notin> sent_of tr c) L))
      < length (filter_js (\<lambda>media index. int index \<notin> sent_of tr c) L)"
    by (simp add: rand_index_less)
  with False show ?thesis by (simp add: getNextUnsentMedia_def Let_def js_nth_def)
qed

text \<open>
  Claim C10. For an empty list the unsent list is empty, so \<open>getNextUnsentMedia\<close> replaces
  the chat's set by the empty set, whatever it held, and returns \<open>undefined\<close>. The job's
  callback does not reach this: with an empty list it only logs and leaves the tracker
  as it is, and with a non-empty list the draw it requests returns an item.
\<close>

theorem empty_list_draw_clears_tracker:
  "getNextUnsentMedia c ([] :: 'a list) u tr = (None, tr(c \<mapsto> {}))
   \<and> (mediaToSend (job_mediaType jb) s = [] \<longrightarrow> onTick jb u s = (NoMedia, s))
   \<and> (mediaToSend (job_mediaType jb) s \<noteq> [] \<longrightarrow>
        (\<exists>m. fst (getNextUnsentMedia (job_chat jb) (mediaToSend (job_mediaType jb) s) u
                (sentMediaTracking s)) = Some m)
        \<and> fst (onTick jb u s) \<noteq> TypeError \<and> fst (onTick jb u s) \<noteq> NoMedia)"
proof (intro conjI impI)
  show "getNextUnsentMedia c ([] :: 'a list) u tr = (None, tr(c \<mapsto> {}))"
    by (simp add: getNextUnsentMedia_def filter_js_def js_nth_def Let_def)
next
  assume "mediaToSend (job_mediaType jb) s = []"
  then show "onTick jb u s = (NoMedia, s)" by (simp add: onTick_def)
next
  assume ne: "mediaToSend (job_mediaType jb) s \<noteq> []"
  from getNext_nonempty_defined[OF ne]
  obtain m where m: "fst (getNextUnsentMedia (job_chat jb) (mediaToSend (job_mediaType jb) s) u
      (sentMediaTracking s)) = Some m" by blast
  then show "\<exists>m. fst (getNextUnsentMedia (job_chat jb) (mediaToSend (job_mediaType jb) s) u
                (sentMediaTracking s)) = Some m" by blast
  from m ne show "fst (onTick jb u s) \<noteq> TypeError"
    by (cases "getNextUnsentMedia (job_chat jb) (mediaToSend (job_mediaType jb) s) u
      (sentMediaTracking s)") (simp add: onTick_def Let_def)
  from m ne show "fst (onTick jb u s) \<noteq> NoMedia"
    by (cases "getNextUnsentMedia (job_chat jb) (mediaToSend (job_mediaType jb) s) u
      (sentMediaTracking s)") (simp add: onTick_def Let_def)
qed

theorem empty_list_draw_clears_tracker_witness:
  "getNextUnsentMedia ''g'' ([] :: media list) 0 [''g'' \<mapsto> {0, 1}] = (None, [''g'' \<mapsto> {}])
   \<and> mediaToSend ''videos'' (boot [] [img ''p''] []) = []
   \<and> onTick \<lparr>job_chat = ''g'', job_interval = 1, job_mediaType = ''videos''\<rparr> 0
        (boot [] [img ''p''] []) = (NoMedia, boot [] [img ''p''] [])
   \<and> mediaToSend ''images'' (boot [] [img ''p''] []) \<noteq> []
   \<and> fst (onTick \<lparr>job_chat = ''g'', job_interval = 1, job_mediaType = ''images''\<rparr> 0
        (boot [] [img ''p''] [])) = Dispatched (SendPhoto ''g'' ''p'' [])"
proof -
  let ?s = "boot [] [img ''p''] []"
  let ?jv = "\<lparr>job_chat = ''g'', job_interval = 1, job_mediaType = ''videos''\<rparr>"
  have e: "mediaToSend ''videos'' ?s = []" and n: "mediaToSend ''images'' ?s \<noteq> []"
    by (simp_all add: mediaToSend_def boot_def)
  from empty_list_draw_clears_tracker[where ?'a = media, of "''g''" 0 "[''g'' \<mapsto> {0, 1}]" ?jv ?s] e
  have 1: "getNextUnsentMedia ''g'' ([] :: media list) 0 [''g'' \<mapsto> {0, 1}] = (None, [''g'' \<mapsto> {}])"
    and 2: "onTick ?jv 0 ?s = (NoMedia, ?s)"
    by simp_all
  have 3: "fst (onTick \<lparr>job_chat = ''g'', job_interval = 1, job_mediaType = ''images''\<rparr> 0 ?s)
      = Dispatched (SendPhoto ''g'' ''p'' [])"
    by (simp add: boot_def onTick_def mediaToSend_def getNextUnsentMedia_def filter_js_def
        sent_of_def js_nth_def rand_index_def Let_def)
  from e n 1 2 3 show ?thesis by simp
qed

section \<open>Properties of the media pools\<close>

lemma findIndex_none: "findIndex P xs = -1 \<longleftrightarrow> (\<forall>x \<in> set xs. \<not> P x)"
proof (induction xs)
  case Nil
  show ?case by simp
next
  case (Cons y ys)
  have "findIndex P ys \<ge> -1" by (induction ys) (auto simp: Let_def)
  with Cons show ?case by (auto simp: Let_def)
qed

lemma findIndex_found:
  "findIndex P xs \<noteq> -1 \<Longrightarrow>
     0 \<le> findIndex P xs \<and> nat (findIndex P xs) < length xs \<and> P (xs ! nat (findIndex P xs))"
proof (induction xs)
  case Nil
  then show ?case by simp
next
  case (Cons y ys)
  show ?case
  proof (cases "P y")
    case True
    then show ?thesis by simp
  next
    case False
    with Cons.prems have r: "findIndex P ys \<noteq> -1" by (auto simp: Let_def split: if_splits)
    from Cons.IH[OF r] have ih: "0 \<le> findIndex P ys" "nat (findIndex P ys) < length ys"
      "P (ys ! nat (findIndex P ys))" by auto
    from ih(1) have "nat (findIndex P ys + 1) = Suc (nat (findIndex P ys))" by simp
    with False ih show ?thesis by (simp add: Let_def)
  qed
qed

text \<open>
  Claim C8. When the admin sends a video or a photo whose file id is the id of an entry of
  the pool, the handler answers that it already exists, naming that entry, and the state
  (the pool and its file) is unchanged; with an id that no entry has, the new entry is
  appended at the end of the pool and the pool is written to its file.
\<close>

theorem add_rejects_duplicate_else_appends:
  "((\<exists>v \<in> set (videos s). id_m v = mid) \<longrightarrow>
      (\<exists>e \<in> set (videos s). id_m e = mid \<and> on_video True mid cap now s = (AlreadyExists (Some e), s)))
   \<and> ((\<forall>v \<in> set (videos s). id_m v \<noteq> mid) \<longrightarrow>
      on_video True mid cap now s =
        (Added, s\<lparr>videos := videos s @ [\<lparr>id_m = mid, type_m = ''video'', caption = cap, addedAt = now\<rparr>],
                  videosFile := videos s @ [\<lparr>id_m = mid, type_m = ''video'', caption = cap, addedAt = now\<rparr>]\<rparr>))
   \<and> ((\<exists>v \<in> set (images s). id_m v = mid) \<longrightarrow>
      (\<exists>e \<in> set (images s). id_m e = mid \<and> on_photo True mid cap now s = (AlreadyExists (Some e), s)))
   \<and> ((\<forall>v \<in> set (images s). id_m v \<noteq> mid) \<longrightarrow>
      on_photo True mid cap now s =
        (Added, s\<lparr>images := images s @ [\<lparr>id_m = mid, type_m = ''image'', caption = cap, addedAt = now\<rparr>],
                  imagesFile := images s @ [\<lparr>id_m = mid, type_m = ''image'', caption = cap, addedAt = now\<rparr>]\<rparr>))"
proof (intro conjI impI)
  assume "\<exists>v \<in> set (videos s). id_m v = mid"
  then have "findIndex (\<lambda>video. id_m video = mid) (videos s) \<noteq> -1"
    by (simp add: findIndex_none)
  from findIndex_found[OF this] this
  show "\<exists>e \<in> set (videos s). id_m e = mid \<and> on_video True mid cap now s = (AlreadyExists (Some e), s)"
    by (intro bexI[where x = "videos s ! nat (findIndex (\<lambda>video. id_m video = mid) (videos s))"])
       (simp_all add: on_video_def js_nth_def Let_def)
next
  assume "\<forall>v \<in> set (videos s). id_m v \<noteq> mid"
  then have "findIndex (\<lambda>video. id_m video = mid) (videos s) = -1"
    by (simp add: findIndex_none)
  then show "on_video True mid cap now s =
        (Added, s\<lparr>videos := videos s @ [\<lparr>id_m = mid, type_m = ''video'', caption = cap, addedAt = now\<rparr>],
                  videosFile := videos s @ [\<lparr>id_m = mid, type_m = ''video'', caption = cap, addedAt = now\<rparr>]\<rparr>)"
    by (simp add: on_video_def saveVideos_def)
next
  assume "\<exists>v \<in> set (images s). id_m v = mid"
  then have "findIndex (\<lambda>image. id_m image = mid) (images s) \<noteq> -1"
    by (simp add: findIndex_none)
  from findIndex_found[OF this] this
  show "\<exists>e \<in> set (images s). id_m e = mid \<and> on_photo True mid cap now s = (AlreadyExists (Some e), s)"
    by (intro bexI[where x = "images s ! nat (findIndex (\<lambda>image. id_m image = mid) (images s))"])
       (simp_all add: on_photo_def js_nth_def Let_def)
next
  assume "\<forall>v \<in> set (images s). id_m v \<noteq> mid"
  then have "findIndex (\<lambda>image. id_m image = mid) (images s) = -1"
    by (simp add: findIndex_none)
  then show "on_photo True mid cap now s =
        (Added, s\<lparr>images := images s @ [\<lparr>id_m = mid, type_m = ''image'', caption = cap, addedAt = now\<rparr>],
                  imagesFile := images s @ [\<lparr>id_m = mid, type_m = ''image'', caption = cap, addedAt = now\<rparr>]\<rparr>)"
    by (simp add: on_photo_def saveImages_def)
qed

theorem add_rejects_duplicate_else_appends_witness:
  "on_video True ''a'' ''again'' ''t1'' (boot [vid ''a''] [img ''p''] [])
     = (AlreadyExists (Some (vid ''a'')), boot [vid ''a''] [img ''p''] [])
   \<and> on_video True ''b'' [] ''t0'' (boot [vid ''a''] [img ''p''] [])
     = (Added, (boot [vid ''a''] [img ''p''] [])
          \<lparr>videos := [vid ''a'', vid ''b''], videosFile := [vid ''a'', vid ''b'']\<rparr>)
   \<and> on_photo True ''p'' ''again'' ''t1'' (boot [vid ''a''] [img ''p''] [])
     = (AlreadyExists (Some (img ''p'')), boot [vid ''a''] [img ''p''] [])
   \<and> on_photo True ''q'' [] ''t0'' (boot [vid ''a''] [img ''p''] [])
     = (Added, (boot [vid ''a''] [img ''p''] [])
          \<lparr>images := [img ''p'', img ''q''], imagesFile := [img ''p'', img ''q'']\<rparr>)"
proof -
  let ?s = "boot [vid ''a''] [img ''p''] []"
  have v: "videos ?s = [vid ''a'']" and i: "images ?s = [img ''p'']" by (simp_all add: boot_def)
  from add_rejects_duplicate_else_appends[of ?s "''a''" "''again''" "''t1''"] v
  have 1: "on_video True ''a'' ''again'' ''t1'' ?s = (AlreadyExists (Some (vid ''a'')), ?s)"
    by simp
  from add_rejects_duplicate_else_appends[of ?s "''b''" "[]" "''t0''"] v
  have 2: "on_video True ''b'' [] ''t0'' ?s
     = (Added, ?s\<lparr>videos := [vid ''a'', vid ''b''], videosFile := [vid ''a'', vid ''b'']\<rparr>)"
    by simp
  from add_rejects_duplicate_else_appends[of ?s "''p''" "''again''" "''t1''"] i
  have 3: "on_photo True ''p'' ''again'' ''t1'' ?s = (AlreadyExists (Some (img ''p'')), ?s)"
    by simp
  from add_rejects_duplicate_else_appends[of ?s "''q''" "[]" "''t0''"] i
  have 4: "on_photo True ''q'' [] ''t0'' ?s
     = (Added, ?s\<lparr>images := [img ''p'', img ''q''], imagesFile := [img ''p'', img ''q'']\<rparr>)"
    by simp
  from 1 2 3 4 show ?thesis by simp
qed

lemma nths_eqI: "(\<And>i. i < length xs \<Longrightarrow> i \<in> A \<longleftrightarrow> i \<in> B) \<Longrightarrow> nths xs A = nths xs B"
  unfolding nths_def
  by (rule arg_cong[where f = "map fst"], rule filter_cong) (auto simp: set_zip)

text \<open>Removing position \<open>k\<close> when every position still to be removed lies below \<open>k\<close>.\<close>

lemma nths_splice:
  assumes k: "k < length xs" and kA: "k \<notin> A"
    and low: "\<And>m. m < k \<Longrightarrow> m \<in> B \<longleftrightarrow> m \<in> A"
    and highA: "\<And>m. k < m \<Longrightarrow> m \<in> A" and highB: "\<And>m. k \<le> m \<Longrightarrow> m \<in> B"
  shows "nths (take k xs @ drop (Suc k) xs) B = nths xs A"
proof -
  have lt: "length (take k xs) = k" using k by simp
  have 1: "nths (take k xs) B = nths (take k xs) A"
    by (rule nths_eqI) (simp add: low)
  have 2: "nths (drop (Suc k) xs) {j. j + k \<in> B} = drop (Suc k) xs"
    by (rule nths_all) (simp add: highB)
  have 3: "nths (drop (Suc k) xs) {j. Suc j + k \<in> A} = drop (Suc k) xs"
    by (rule nths_all) (simp add: highA)
  have "xs = take k xs @ xs ! k # drop (Suc k) xs" using k by (simp add: id_take_nth_drop)
  then have "nths xs A = nths (take k xs @ xs ! k # drop (Suc k) xs) A" by simp
  also have "\<dots> = nths (take k xs) A @ nths (xs ! k # drop (Suc k) xs) {j. j + k \<in> A}"
    by (simp only: nths_append lt)
  also have "nths (xs ! k # drop (Suc k) xs) {j. j + k \<in> A} = drop (Suc k) xs"
    using kA 3 by (simp add: nths_Cons)
  finally have a: "nths xs A = nths (take k xs) A @ drop (Suc k) xs" .
  have "nths (take k xs @ drop (Suc k) xs) B = nths (take k xs) B @ drop (Suc k) xs"
    using 2 by (simp only: nths_append lt)
  with a 1 show ?thesis by simp
qed

lemma splice1_in_range:
  "0 \<le> i \<Longrightarrow> i < int (length xs) \<Longrightarrow>
     splice1 (Num i) xs = (Some (xs ! nat i), take (nat i) xs @ drop (Suc (nat i)) xs)"
  by (simp add: splice1_def Let_def js_nth_def min_def)

text \<open>
  Splicing a strictly descending list of valid positions out of a list removes exactly
  those positions and keeps the others in their order.
\<close>

lemma splice_all_desc:
  "sorted_wrt (>) is \<Longrightarrow> \<forall>i \<in> set is. 0 \<le> i \<and> i < int (length xs) \<Longrightarrow>
     splice_all is xs = (map (\<lambda>i. Some (xs ! nat i)) is, nths xs {k. int k \<notin> set is})"
proof (induction "is" arbitrary: xs)
  case Nil
  show ?case by (simp add: nths_all)
next
  case (Cons i "is")
  let ?k = "nat i"
  let ?xs1 = "take ?k xs @ drop (Suc ?k) xs"
  from Cons.prems have i: "0 \<le> i" "i < int (length xs)" by auto
  then have k: "?k < length xs" by simp
  from Cons.prems have below: "\<forall>j \<in> set is. j < i" and sw: "sorted_wrt (>) is" by auto
  have len1: "length ?xs1 = length xs - 1" using k by simp
  have rng: "\<forall>j \<in> set is. 0 \<le> j \<and> j < int (length ?xs1)"
  proof
    fix j assume j: "j \<in> set is"
    with below Cons.prems(2) have "0 \<le> j" "j < i" by auto
    with i len1 show "0 \<le> j \<and> j < int (length ?xs1)" by simp
  qed
  have same: "map (\<lambda>j. Some (?xs1 ! nat j)) is = map (\<lambda>j. Some (xs ! nat j)) is"
  proof (rule map_cong[OF refl])
    fix j assume j: "j \<in> set is"
    with below Cons.prems(2) have "0 \<le> j" "j < i" by auto
    then have "nat j < ?k" by simp
    then show "Some (?xs1 ! nat j) = Some (xs ! nat j)" using k by (simp add: nth_append)
  qed
  have rest: "nths ?xs1 {m. int m \<notin> set is} = nths xs {m. int m \<notin> set (i # is)}"
  proof (rule nths_splice[OF k])
    show "?k \<notin> {m. int m \<notin> set (i # is)}" using i by simp
  next
    fix m assume "m < ?k"
    then have "int m \<noteq> i" by simp
    then show "m \<in> {m. int m \<notin> set is} \<longleftrightarrow> m \<in> {m. int m \<notin> set (i # is)}" by simp
  next
    fix m assume "?k < m"
    then have "i < int m" by simp
    with below show "m \<in> {m. int m \<notin> set (i # is)}" by auto
  next
    fix m assume "?k \<le> m"
    then have "i \<le> int m" by simp
    with below show "m \<in> {m. int m \<notin> set is}" by auto
  qed
  from Cons.IH[OF sw rng] same rest splice1_in_range[OF i]
  show ?case by simp
qed

lemma sort_desc_strict: "distinct xs \<Longrightarrow> sorted_wrt (>) (sort_desc xs)"
proof -
  assume "distinct xs"
  then have "sorted_wrt (<) (sort xs)" by (simp add: strict_sorted_iff)
  then show ?thesis by (simp add: sort_desc_def sorted_wrt_rev)
qed

lemma set_sort_desc: "set (sort_desc xs) = set xs" and length_sort_desc: "length (sort_desc xs) = length xs"
  by (simp_all add: sort_desc_def)

lemma removeMany_result:
  assumes d: "distinct idxs" and v: "\<forall>i \<in> set idxs. 0 \<le> i \<and> i < int (length xs)"
  shows "splice_all (sort_desc idxs) xs =
     (map (\<lambda>i. Some (xs ! nat i)) (sort_desc idxs), nths xs {k. int k \<notin> set idxs})"
  using splice_all_desc[OF sort_desc_strict[OF d], of xs] v by (simp add: set_sort_desc)

lemma in_range_iff: "in_range len x \<longleftrightarrow> (\<exists>a. x = Num a \<and> 0 \<le> a \<and> a < int len)"
  by (cases x) (auto simp: in_range_def)

text \<open>Every index the handlers are about to delete has passed the range test.\<close>

lemma indicesToDelete_valid:
  assumes "indicesToDelete len arg = Inr idxs"
  shows "\<forall>i \<in> set idxs. 0 \<le> i \<and> i < int len"
proof (cases arg)
  case (RangeArg a b)
  with assms show ?thesis
    by (cases a; cases b) (auto simp: indicesToDelete_def Let_def split: if_splits)
next
  case (ListArg ns)
  with assms have "idxs = map num_val (filter (in_range len) (map minus1 ns))"
    by (auto simp: indicesToDelete_def Let_def split: if_splits)
  then show ?thesis by (auto simp: in_range_iff)
next
  case (SingleArg a)
  with assms show ?thesis
    by (auto simp: indicesToDelete_def Let_def in_range_iff split: if_splits)
qed (use assms in \<open>simp_all add: indicesToDelete_def\<close>)

lemma indicesToDelete_list_invalid:
  assumes "\<exists>n \<in> set ns. \<not> in_range len (minus1 n)"
  shows "indicesToDelete len (ListArg ns) = Inl InvalidIndices"
proof -
  from assms have "\<exists>x \<in> set (map minus1 ns). \<not> in_range len x" by auto
  then have "length (filter (in_range len) (map minus1 ns)) < length (map minus1 ns)"
    by (auto intro: length_filter_less)
  then show ?thesis by (simp add: indicesToDelete_def Let_def)
qed

lemma indicesToDelete_list_valid:
  assumes "\<forall>n \<in> set ns. in_range len (minus1 n)"
  shows "indicesToDelete len (ListArg ns) = Inr (map (\<lambda>n. num_val (minus1 n)) ns)"
proof -
  from assms have "filter (in_range len) (map minus1 ns) = map minus1 ns"
    by (simp add: filter_id_conv)
  then show ?thesis by (simp add: indicesToDelete_def Let_def comp_def)
qed

lemma indicesToDelete_distinct:
  assumes "indicesToDelete len arg = Inr idxs" and "\<forall>ns. arg \<noteq> ListArg ns"
  shows "distinct idxs"
proof (cases arg)
  case (RangeArg a b)
  with assms(1) show ?thesis
    by (auto simp: indicesToDelete_def Let_def split: if_splits)
next
  case (SingleArg a)
  with assms(1) show ?thesis
    by (auto simp: indicesToDelete_def Let_def split: if_splits)
next
  case (ListArg ns)
  with assms(2) show ?thesis by simp
qed (use assms(1) in \<open>simp_all add: indicesToDelete_def\<close>)

lemma deletevideos_ok:
  assumes ne: "videos s \<noteq> []" and i: "indicesToDelete (length (videos s)) arg = Inr idxs"
    and d: "distinct idxs"
  shows "deletevideos True arg s =
     (DeletedMany (length idxs),
      s\<lparr>videos := nths (videos s) {k. int k \<notin> set idxs},
        videosFile := nths (videos s) {k. int k \<notin> set idxs}\<rparr>)"
  using ne i removeMany_result[OF d indicesToDelete_valid[OF i]]
  by (simp add: deletevideos_def saveVideos_def length_sort_desc)

lemma deleteimages_ok:
  assumes ne: "images s \<noteq> []" and i: "indicesToDelete (length (images s)) arg = Inr idxs"
    and d: "distinct idxs"
  shows "deleteimages True arg s =
     (DeletedMany (length idxs),
      s\<lparr>images := nths (images s) {k. int k \<notin> set idxs},
        imagesFile := nths (images s) {k. int k \<notin> set idxs}\<rparr>)"
  using ne i removeMany_result[OF d indicesToDelete_valid[OF i]]
  by (simp add: deleteimages_def saveImages_def length_sort_desc)

text \<open>
  What the handlers do with each form of request. A range \<open>a-b\<close> is accepted exactly when
  \<open>1 \<le> a \<le> b \<le> len\<close> and then names the positions \<open>a-1..b-1\<close>; a single index \<open>a\<close> is
  accepted exactly when \<open>1 \<le> a \<le> len\<close> and names position \<open>a-1\<close>; a list is accepted exactly
  when every piece is in range.
\<close>

lemma indicesToDelete_range:
  "indicesToDelete len (RangeArg (Num a) (Num b)) =
     (if 1 \<le> a \<and> a \<le> b \<and> b \<le> int len then Inr [a - 1..b - 1] else Inl InvalidRange)"
  by (auto simp: indicesToDelete_def Let_def)

lemma indicesToDelete_range_NaN:
  "indicesToDelete len (RangeArg NaN y) = Inl InvalidRange"
  "indicesToDelete len (RangeArg x NaN) = Inl InvalidRange"
  by (cases x; simp add: indicesToDelete_def Let_def)+

lemma indicesToDelete_single:
  "indicesToDelete len (SingleArg (Num a)) =
     (if 1 \<le> a \<and> a \<le> int len then Inr [a - 1] else Inl InvalidIndex)"
  "indicesToDelete len (SingleArg NaN) = Inl InvalidIndex"
  by (auto simp: indicesToDelete_def in_range_def Let_def)

lemma deletevideos_rejected:
  "videos s \<noteq> [] \<Longrightarrow> indicesToDelete (length (videos s)) arg = Inl r \<Longrightarrow>
     deletevideos True arg s = (r, s)"
  by (simp add: deletevideos_def)

lemma deleteimages_rejected:
  "images s \<noteq> [] \<Longrightarrow> indicesToDelete (length (images s)) arg = Inl r \<Longrightarrow>
     deleteimages True arg s = (r, s)"
  by (simp add: deleteimages_def)

text \<open>
  For a request that names no index twice, \<open>/deletevideos\<close> removes what is asked: the
  indices are tested before anything is removed, a request that fails the test leaves
  the state as it is, and otherwise exactly the entries at the requested positions are
  removed, the others keep their order, and the pool is written to its file.
\<close>

lemma deletevideos_without_repeats:
  assumes ne: "videos s \<noteq> []"
  shows
   "(1 \<le> a \<and> a \<le> b \<and> b \<le> int (length (videos s)) \<longrightarrow>
        deletevideos True (RangeArg (Num a) (Num b)) s =
          (DeletedMany (nat (b - a + 1)),
           s\<lparr>videos := nths (videos s) {k. int k < a - 1 \<or> b - 1 < int k},
             videosFile := nths (videos s) {k. int k < a - 1 \<or> b - 1 < int k}\<rparr>))
    \<and> (\<not> (1 \<le> a \<and> a \<le> b \<and> b \<le> int (length (videos s))) \<longrightarrow>
        deletevideos True (RangeArg (Num a) (Num b)) s = (InvalidRange, s))
    \<and> deletevideos True (RangeArg NaN y) s = (InvalidRange, s)
    \<and> deletevideos True (RangeArg x NaN) s = (InvalidRange, s)
    \<and> (1 \<le> a \<and> a \<le> int (length (videos s)) \<longrightarrow>
        deletevideos True (SingleArg (Num a)) s =
          (DeletedMany 1,
           s\<lparr>videos := nths (videos s) {k. int k \<noteq> a - 1},
             videosFile := nths (videos s) {k. int k \<noteq> a - 1}\<rparr>))
    \<and> (\<not> (1 \<le> a \<and> a \<le> int (length (videos s))) \<longrightarrow>
        deletevideos True (SingleArg (Num a)) s = (InvalidIndex, s))
    \<and> deletevideos True (SingleArg NaN) s = (InvalidIndex, s)
    \<and> ((\<exists>n \<in> set ns. \<not> in_range (length (videos s)) (minus1 n)) \<longrightarrow>
        deletevideos True (ListArg ns) s = (InvalidIndices, s))
    \<and> ((\<forall>n \<in> set ns. in_range (length (videos s)) (minus1 n))
        \<and> distinct (map (\<lambda>n. num_val (minus1 n)) ns) \<longrightarrow>
        deletevideos True (ListArg ns) s =
          (DeletedMany (length ns),
           s\<lparr>videos := nths (videos s) {k. int k \<notin> (\<lambda>n. num_val (minus1 n)) ` set ns},
             videosFile := nths (videos s) {k. int k \<notin> (\<lambda>n. num_val (minus1 n)) ` set ns}\<rparr>))"
proof (intro conjI impI)
  assume r: "1 \<le> a \<and> a \<le> b \<and> b \<le> int (length (videos s))"
  then have i: "indicesToDelete (length (videos s)) (RangeArg (Num a) (Num b)) = Inr [a - 1..b - 1]"
    by (simp add: indicesToDelete_range)
  have s: "{k. int k \<notin> set [a - 1..b - 1]} = {k. int k < a - 1 \<or> b - 1 < int k}" by auto
  have l: "length [a - 1..b - 1] = nat (b - a + 1)" by simp
  from deletevideos_ok[OF ne i] s l
  show "deletevideos True (RangeArg (Num a) (Num b)) s =
          (DeletedMany (nat (b - a + 1)),
           s\<lparr>videos := nths (videos s) {k. int k < a - 1 \<or> b - 1 < int k},
             videosFile := nths (videos s) {k. int k < a - 1 \<or> b - 1 < int k}\<rparr>)"
    by simp
next
  assume "\<not> (1 \<le> a \<and> a \<le> b \<and> b \<le> int (length (videos s)))"
  then have "indicesToDelete (length (videos s)) (RangeArg (Num a) (Num b)) = Inl InvalidRange"
    by (simp add: indicesToDelete_range)
  from deletevideos_rejected[OF ne this]
  show "deletevideos True (RangeArg (Num a) (Num b)) s = (InvalidRange, s)" .
next
  show "deletevideos True (RangeArg NaN y) s = (InvalidRange, s)"
    by (rule deletevideos_rejected[OF ne indicesToDelete_range_NaN(1)])
next
  show "deletevideos True (RangeArg x NaN) s = (InvalidRange, s)"
    by (rule deletevideos_rejected[OF ne indicesToDelete_range_NaN(2)])
next
  assume r: "1 \<le> a \<and> a \<le> int (length (videos s))"
  then have i: "indicesToDelete (length (videos s)) (SingleArg (Num a)) = Inr [a - 1]"
    by (simp add: indicesToDelete_single)
  from deletevideos_ok[OF ne i]
  show "deletevideos True (SingleArg (Num a)) s =
          (DeletedMany 1,
           s\<lparr>videos := nths (videos s) {k. int k \<noteq> a - 1},
             videosFile := nths (videos s) {k. int k \<noteq> a - 1}\<rparr>)"
    by simp
next
  assume "\<not> (1 \<le> a \<and> a \<le> int (length (videos s)))"
  then have "indicesToDelete (length (videos s)) (SingleArg (Num a)) = Inl InvalidIndex"
    by (simp add: indicesToDelete_single)
  from deletevideos_rejected[OF ne this]
  show "deletevideos True (SingleArg (Num a)) s = (InvalidIndex, s)" .
next
  show "deletevideos True (SingleArg NaN) s = (InvalidIndex, s)"
    by (rule deletevideos_rejected[OF ne indicesToDelete_single(2)])
next
  assume "\<exists>n \<in> set ns. \<not> in_range (length (videos s)) (minus1 n)"
  from deletevideos_rejected[OF ne indicesToDelete_list_invalid[OF this]]
  show "deletevideos True (ListArg ns) s = (InvalidIndices, s)" .
next
  assume a: "(\<forall>n \<in> set ns. in_range (length (videos s)) (minus1 n))
        \<and> distinct (map (\<lambda>n. num_val (minus1 n)) ns)"
  then have i: "indicesToDelete (length (videos s)) (ListArg ns)
      = Inr (map (\<lambda>n. num_val (minus1 n)) ns)"
    by (simp add: indicesToDelete_list_valid)
  from deletevideos_ok[OF ne i] a
  show "deletevideos True (ListArg ns) s =
          (DeletedMany (length ns),
           s\<lparr>videos := nths (videos s) {k. int k \<notin> (\<lambda>n. num_val (minus1 n)) ` set ns},
             videosFile := nths (videos s) {k. int k \<notin> (\<lambda>n. num_val (minus1 n)) ` set ns}\<rparr>)"
    by simp
qed

text \<open>The same for \<open>/deleteimages\<close>, whose code is a copy.\<close>

lemma deleteimages_without_repeats:
  assumes ne: "images s \<noteq> []"
  shows
   "(1 \<le> a \<and> a \<le> b \<and> b \<le> int (length (images s)) \<longrightarrow>
        deleteimages True (RangeArg (Num a) (Num b)) s =
          (DeletedMany (nat (b - a + 1)),
           s\<lparr>images := nths (images s) {k. int k < a - 1 \<or> b - 1 < int k},
             imagesFile := nths (images s) {k. int k < a - 1 \<or> b - 1 < int k}\<rparr>))
    \<and> (\<not> (1 \<le> a \<and> a \<le> b \<and> b \<le> int (length (images s))) \<longrightarrow>
        deleteimages True (RangeArg (Num a) (Num b)) s = (InvalidRange, s))
    \<and> (1 \<le> a \<and> a \<le> int (length (images s)) \<longrightarrow>
        deleteimages True (SingleArg (Num a)) s =
          (DeletedMany 1,
           s\<lparr>images := nths (images s) {k. int k \<noteq> a - 1},
             imagesFile := nths (images s) {k. int k \<noteq> a - 1}\<rparr>))
    \<and> (\<not> (1 \<le> a \<and> a \<le> int (length (images s))) \<longrightarrow>
        deleteimages True (SingleArg (Num a)) s = (InvalidIndex, s))
    \<and> ((\<exists>n \<in> set ns. \<not> in_range (length (images s)) (minus1 n)) \<longrightarrow>
        deleteimages True (ListArg ns) s = (InvalidIndices, s))
    \<and> ((\<forall>n \<in> set ns. in_range (length (images s)) (minus1 n))
        \<and> distinct (map (\<lambda>n. num_val (minus1 n)) ns) \<longrightarrow>
        deleteimages True (ListArg ns) s =
          (DeletedMany (length ns),
           s\<lparr>images := nths (images s) {k. int k \<notin> (\<lambda>n. num_val (minus1 n)) ` set ns},
             imagesFile := nths (images s) {k. int k \<notin> (\<lambda>n. num_val (minus1 n)) ` set ns}\<rparr>))"
proof (intro conjI impI)
  assume r: "1 \<le> a \<and> a \<le> b \<and> b \<le> int (length (images s))"
  then have i: "indicesToDelete (length (images s)) (RangeArg (Num a) (Num b)) = Inr [a - 1..b - 1]"
    by (simp add: indicesToDelete_range)
  have s: "{k. int k \<notin> set [a - 1..b - 1]} = {k. int k < a - 1 \<or> b - 1 < int k}" by auto
  have l: "length [a - 1..b - 1] = nat (b - a + 1)" by simp
  from deleteimages_ok[OF ne i] s l
  show "deleteimages True (RangeArg (Num a) (Num b)) s =
          (DeletedMany (nat (b - a + 1)),
           s\<lparr>images := nths (images s) {k. int k < a - 1 \<or> b - 1 < int k},
             imagesFile := nths (images s) {k. int k < a - 1 \<or> b - 1 < int k}\<rparr>)"
    by simp
next
  assume "\<not> (1 \<le> a \<and> a \<le> b \<and> b \<le> int (length (images s)))"
  then have "indicesToDelete (length (images s)) (RangeArg (Num a) (Num b)) = Inl InvalidRange"
    by (simp add: indicesToDelete_range)
  from deleteimages_rejected[OF ne this]
  show "deleteimages True (RangeArg (Num a) (Num b)) s = (InvalidRange, s)" .
next
  assume r: "1 \<le> a \<and> a \<le> int (length (images s))"
  then have i: "indicesToDelete (length (images s)) (SingleArg (Num a)) = Inr [a - 1]"
    by (simp add: indicesToDelete_single)
  from deleteimages_ok[OF ne i]
  show "deleteimages True (SingleArg (Num a)) s =
          (DeletedMany 1,
           s\<lparr>images := nths (images s) {k. int k \<noteq> a - 1},
             imagesFile := nths (images s) {k. int k \<noteq> a - 1}\<rparr>)"
    by simp
next
  assume "\<not> (1 \<le> a \<and> a \<le> int (length (images s)))"
  then have "indicesToDelete (length (images s)) (SingleArg (Num a)) = Inl InvalidIndex"
    by (simp add: indicesToDelete_single)
  from deleteimages_rejected[OF ne this]
  show "deleteimages True (SingleArg (Num a)) s = (InvalidIndex, s)" .
next
  assume "\<exists>n \<in> set ns. \<not> in_range (length (images s)) (minus1 n)"
  from deleteimages_rejected[OF ne indicesToDelete_list_invalid[OF this]]
  show "deleteimages True (ListArg ns) s = (InvalidIndices, s)" .
next
  assume a: "(\<forall>n \<in> set ns. in_range (length (images s)) (minus1 n))
        \<and> distinct (map (\<lambda>n. num_val (minus1 n)) ns)"
  then have i: "indicesToDelete (length (images s)) (ListArg ns)
      = Inr (map (\<lambda>n. num_val (minus1 n)) ns)"
    by (simp add: indicesToDelete_list_valid)
  from deleteimages_ok[OF ne i] a
  show "deleteimages True (ListArg ns) s =
          (DeletedMany (length ns),
           s\<lparr>images := nths (images s) {k. int k \<notin> (\<lambda>n. num_val (minus1 n)) ` set ns},
             imagesFile := nths (images s) {k. int k \<notin> (\<lambda>n. num_val (minus1 n)) ` set ns}\<rparr>)"
    by simp
qed

text \<open>
  The scenario of the specification: a pool of five and the request \<open>2,4\<close> (positions \<open>1\<close>
  and \<open>3\<close> counted from \<open>0\<close>) leave the entries at positions \<open>0\<close>, \<open>2\<close> and \<open>4\<close>, in this
  order; a request with the index \<open>9\<close>, and the single index \<open>6\<close>, change nothing.
\<close>

lemma removeMany_scenario:
  "deletevideos True (ListArg [Num 2, Num 4])
        (boot [vid ''a'', vid ''b'', vid ''c'', vid ''d'', vid ''e''] [] [])
      = (DeletedMany 2,
         (boot [vid ''a'', vid ''b'', vid ''c'', vid ''d'', vid ''e''] [] [])
           \<lparr>videos := [vid ''a'', vid ''c'', vid ''e''],
            videosFile := [vid ''a'', vid ''c'', vid ''e'']\<rparr>)
   \<and> deletevideos True (ListArg [Num 2, Num 9])
        (boot [vid ''a'', vid ''b'', vid ''c'', vid ''d'', vid ''e''] [] [])
      = (InvalidIndices, boot [vid ''a'', vid ''b'', vid ''c'', vid ''d'', vid ''e''] [] [])
   \<and> deletevideos True (SingleArg (Num 6))
        (boot [vid ''a'', vid ''b'', vid ''c'', vid ''d'', vid ''e''] [] [])
      = (InvalidIndex, boot [vid ''a'', vid ''b'', vid ''c'', vid ''d'', vid ''e''] [] [])"
  by (simp add: deletevideos_def indicesToDelete_def in_range_def sort_desc_def splice1_def
      js_nth_def saveVideos_def boot_def Let_def)

text \<open>
  Claim C7. The claim fails for a list request that names an index twice. The handler
  tests each piece against the range, so \<open>2,2\<close> on a pool of three passes, and
  \<open>indicesToDelete\<close> is \<open>[1, 1]\<close>. Sorting in descending order, which the code does to keep
  earlier removals from shifting later ones, does not help for equal indices: the second
  splice at position \<open>1\<close> removes the entry that has moved there. The request targets
  only position \<open>1\<close>, so the entries at positions \<open>0\<close> and \<open>2\<close> should remain; the handler
  leaves only the entry at position \<open>0\<close> and writes that pool to the file. \<open>/deleteimages\<close>
  is a copy of the code and does the same.
\<close>

theorem repeated_index_removes_untargeted_entry:
  "indicesToDelete 3 (ListArg [Num 2, Num 2]) = Inr [1, 1]
   \<and> nths [vid ''a'', vid ''b'', vid ''c''] {k. int k \<notin> set [1, 1]} = [vid ''a'', vid ''c'']
   \<and> deletevideos True (ListArg [Num 2, Num 2]) (boot [vid ''a'', vid ''b'', vid ''c''] [] [])
     = (DeletedMany 2,
        (boot [vid ''a'', vid ''b'', vid ''c''] [] [])
          \<lparr>videos := [vid ''a''], videosFile := [vid ''a'']\<rparr>)
   \<and> deleteimages True (ListArg [Num 2, Num 2]) (boot [] [img ''p'', img ''q'', img ''r''] [])
     = (DeletedMany 2,
        (boot [] [img ''p'', img ''q'', img ''r''] [])
          \<lparr>images := [img ''p''], imagesFile := [img ''p'']\<rparr>)"
  by (simp add: deletevideos_def deleteimages_def indicesToDelete_def in_range_def sort_desc_def
      splice1_def js_nth_def saveVideos_def saveImages_def boot_def Let_def nths_Cons)

section \<open>Properties of the job table\<close>

lemma createScheduledJob_fields:
  "videos (createScheduledJob c i m t s) = videos s"
  "images (createScheduledJob c i m t s) = images s"
  "videosFile (createScheduledJob c i m t s) = videosFile s"
  "imagesFile (createScheduledJob c i m t s) = imagesFile s"
  "sentMediaTracking (createScheduledJob c i m t s) = sentMediaTracking s"
  "nextJob (createScheduledJob c i m t s) = Suc (nextJob s)"
  "schedules (createScheduledJob c i m t s) = (schedules s)(c \<mapsto> nextJob s)"
  "scheduleData (createScheduledJob c i m t s) =
     AList.update c \<lparr>interval = i, mediaType = m, createdAt = t\<rparr> (scheduleData s)"
  "schedulesFile (createScheduledJob c i m t s) = scheduleData (createScheduledJob c i m t s)"
  by (simp_all add: createScheduledJob_def saveScheduleData_def Let_def split: option.split)

lemma createScheduledJob_timers:
  "timers (createScheduledJob c i m t s) =
     (case schedules s c of
        Some old \<Rightarrow> ((timers s)(old := None))(nextJob s \<mapsto>
                      \<lparr>job_chat = c, job_interval = i, job_mediaType = m\<rparr>)
      | None \<Rightarrow> (timers s)(nextJob s \<mapsto> \<lparr>job_chat = c, job_interval = i, job_mediaType = m\<rparr>))"
  by (simp add: createScheduledJob_def saveScheduleData_def Let_def split: option.split)

lemma wf_boot: "wf (boot vf imf sf)"
  by (simp add: wf_def boot_def)

lemma wf_timer_fresh: "wf s \<Longrightarrow> timers s h = Some jb \<Longrightarrow> h < nextJob s"
  unfolding wf_def by blast

lemma wf_createScheduledJob:
  assumes w: "wf s"
  shows "wf (createScheduledJob c i m t s)"
proof -
  let ?s' = "createScheduledJob c i m t s"
  let ?n = "nextJob s"
  from w have w1: "\<And>h jb. timers s h = Some jb \<Longrightarrow> schedules s (job_chat jb) = Some h"
    and w2: "\<And>c h jb. schedules s c = Some h \<Longrightarrow> timers s h = Some jb \<Longrightarrow> job_chat jb = c"
    and w3: "\<And>c h. schedules s c = Some h \<Longrightarrow> h < ?n"
    unfolding wf_def by blast+
  have t: "\<And>h jb. timers ?s' h = Some jb \<Longrightarrow>
      (h = ?n \<and> jb = \<lparr>job_chat = c, job_interval = i, job_mediaType = m\<rparr>)
      \<or> (h \<noteq> ?n \<and> timers s h = Some jb \<and> schedules s c \<noteq> Some h)"
    by (auto simp: createScheduledJob_timers split: option.splits if_splits)
  have a: "\<forall>h jb. timers ?s' h = Some jb \<longrightarrow> schedules ?s' (job_chat jb) = Some h"
  proof (intro allI impI)
    fix h jb assume "timers ?s' h = Some jb"
    from t[OF this] show "schedules ?s' (job_chat jb) = Some h"
    proof
      assume "h = ?n \<and> jb = \<lparr>job_chat = c, job_interval = i, job_mediaType = m\<rparr>"
      then show ?thesis by (simp add: createScheduledJob_fields)
    next
      assume o: "h \<noteq> ?n \<and> timers s h = Some jb \<and> schedules s c \<noteq> Some h"
      then have "schedules s (job_chat jb) = Some h" using w1 by blast
      moreover from this o have "job_chat jb \<noteq> c" by auto
      ultimately show ?thesis by (simp add: createScheduledJob_fields)
    qed
  qed
  have b: "\<forall>c' h jb. schedules ?s' c' = Some h \<longrightarrow> timers ?s' h = Some jb \<longrightarrow> job_chat jb = c'"
  proof (intro allI impI)
    fix c' h jb assume sc: "schedules ?s' c' = Some h" and tm: "timers ?s' h = Some jb"
    from t[OF tm] show "job_chat jb = c'"
    proof
      assume n: "h = ?n \<and> jb = \<lparr>job_chat = c, job_interval = i, job_mediaType = m\<rparr>"
      show ?thesis
      proof (cases "c' = c")
        case True
        with n show ?thesis by simp
      next
        case False
        with sc have "schedules s c' = Some h" by (simp add: createScheduledJob_fields)
        from w3[OF this] n show ?thesis by simp
      qed
    next
      assume o: "h \<noteq> ?n \<and> timers s h = Some jb \<and> schedules s c \<noteq> Some h"
      with sc have "schedules s c' = Some h"
        by (auto simp: createScheduledJob_fields split: if_splits)
      with o w2 show ?thesis by blast
    qed
  qed
  have c: "\<forall>c' h. schedules ?s' c' = Some h \<longrightarrow> h < nextJob ?s'"
    using w3 by (auto simp: createScheduledJob_fields less_Suc_eq split: if_splits)
  from a b c show ?thesis unfolding wf_def by blast
qed

text \<open>After \<open>createScheduledJob\<close> the chat has exactly the new job armed.\<close>

lemma timers_of_create_same:
  assumes w: "wf s"
  shows "timers_of (createScheduledJob c i m t s) c =
     {(nextJob s, \<lparr>job_chat = c, job_interval = i, job_mediaType = m\<rparr>)}"
proof -
  let ?s' = "createScheduledJob c i m t s"
  let ?n = "nextJob s"
  from w have w1: "\<And>h jb. timers s h = Some jb \<Longrightarrow> schedules s (job_chat jb) = Some h"
    unfolding wf_def by blast
  have fresh: "timers s ?n = None"
    using wf_timer_fresh[OF w, of ?n] by (cases "timers s ?n") auto
  have "\<And>h jb. (timers ?s' h = Some jb \<and> job_chat jb = c) \<longleftrightarrow>
      (h = ?n \<and> jb = \<lparr>job_chat = c, job_interval = i, job_mediaType = m\<rparr>)"
  proof
    fix h jb assume a: "timers ?s' h = Some jb \<and> job_chat jb = c"
    show "h = ?n \<and> jb = \<lparr>job_chat = c, job_interval = i, job_mediaType = m\<rparr>"
    proof (rule ccontr)
      assume "\<not> ?thesis"
      with a have o: "h \<noteq> ?n" "timers s h = Some jb" "schedules s c \<noteq> Some h"
        by (auto simp: createScheduledJob_timers split: option.splits if_splits)
      from w1[OF o(2)] a o(3) show False by simp
    qed
  next
    fix h jb assume "h = ?n \<and> jb = \<lparr>job_chat = c, job_interval = i, job_mediaType = m\<rparr>"
    then show "timers ?s' h = Some jb \<and> job_chat jb = c"
      by (simp add: createScheduledJob_timers split: option.splits)
  qed
  then show ?thesis unfolding timers_of_def by auto
qed

text \<open>\<open>createScheduledJob\<close> for one chat leaves the armed jobs of every other chat.\<close>

lemma timers_of_create_other:
  assumes w: "wf s" and ne: "c' \<noteq> c"
  shows "timers_of (createScheduledJob c i m t s) c' = timers_of s c'"
proof -
  let ?s' = "createScheduledJob c i m t s"
  let ?n = "nextJob s"
  from w have w2: "\<And>c h jb. schedules s c = Some h \<Longrightarrow> timers s h = Some jb \<Longrightarrow> job_chat jb = c"
    unfolding wf_def by blast
  have fresh: "timers s ?n = None"
    using wf_timer_fresh[OF w, of ?n] by (cases "timers s ?n") auto
  have "\<And>h jb. (timers ?s' h = Some jb \<and> job_chat jb = c') \<longleftrightarrow>
      (timers s h = Some jb \<and> job_chat jb = c')"
  proof
    fix h jb assume "timers ?s' h = Some jb \<and> job_chat jb = c'"
    with ne show "timers s h = Some jb \<and> job_chat jb = c'"
      by (auto simp: createScheduledJob_timers split: option.splits if_splits)
  next
    fix h jb assume a: "timers s h = Some jb \<and> job_chat jb = c'"
    then have hn: "h \<noteq> ?n" using fresh by auto
    have "schedules s c \<noteq> Some h"
    proof
      assume "schedules s c = Some h"
      from w2[OF this] a ne show False by auto
    qed
    with a hn show "timers ?s' h = Some jb \<and> job_chat jb = c'"
      by (auto simp: createScheduledJob_timers split: option.splits)
  qed
  then show ?thesis unfolding timers_of_def by auto
qed

lemma onTick_frame:
  "timers (snd (onTick jb u s)) = timers s"
  "schedules (snd (onTick jb u s)) = schedules s"
  "nextJob (snd (onTick jb u s)) = nextJob s"
  "videos (snd (onTick jb u s)) = videos s"
  "images (snd (onTick jb u s)) = images s"
  "scheduleData (snd (onTick jb u s)) = scheduleData s"
  "videosFile (snd (onTick jb u s)) = videosFile s"
  "imagesFile (snd (onTick jb u s)) = imagesFile s"
  "schedulesFile (snd (onTick jb u s)) = schedulesFile s"
  by (simp_all add: onTick_def Let_def split: prod.split option.split)

lemma fire_frame:
  "timers (snd (fire h u s)) = timers s"
  "schedules (snd (fire h u s)) = schedules s"
  "nextJob (snd (fire h u s)) = nextJob s"
  "videos (snd (fire h u s)) = videos s"
  "images (snd (fire h u s)) = images s"
  "scheduleData (snd (fire h u s)) = scheduleData s"
  "videosFile (snd (fire h u s)) = videosFile s"
  "imagesFile (snd (fire h u s)) = imagesFile s"
  "schedulesFile (snd (fire h u s)) = schedulesFile s"
  using onTick_frame[of _ u s]
  by (auto simp: fire_def split: option.split prod.split) (metis snd_conv)+

lemma wf_cong:
  "timers s' = timers s \<Longrightarrow> schedules s' = schedules s \<Longrightarrow> nextJob s' = nextJob s \<Longrightarrow>
     wf s' = wf s"
  by (simp add: wf_def)

lemma wf_stop_command:
  assumes w: "wf s"
  shows "wf (snd (stop_command ty c s))"
proof -
  from w have w1: "\<And>h jb. timers s h = Some jb \<Longrightarrow> schedules s (job_chat jb) = Some h"
    and w2: "\<And>c h jb. schedules s c = Some h \<Longrightarrow> timers s h = Some jb \<Longrightarrow> job_chat jb = c"
    and w3: "\<And>c h. schedules s c = Some h \<Longrightarrow> h < nextJob s"
    unfolding wf_def by blast+
  show ?thesis
  proof (cases "ty = ''private''")
    case True
    with w show ?thesis by (simp add: stop_command_def)
  next
    case False
    show ?thesis
    proof (cases "schedules s c")
      case None
      with False w show ?thesis
        by (auto simp: stop_command_def saveScheduleData_def Let_def wf_def split: option.split)
    next
      case (Some jb)
      let ?s' = "snd (stop_command ty c s)"
      from False Some have tm: "timers ?s' = (timers s)(jb := None)"
        and sc: "schedules ?s' = (schedules s)(c := None)" and nj: "nextJob ?s' = nextJob s"
        by (simp_all add: stop_command_def saveScheduleData_def Let_def)
      have "\<forall>h j. timers ?s' h = Some j \<longrightarrow> schedules ?s' (job_chat j) = Some h"
      proof (intro allI impI)
        fix h j assume "timers ?s' h = Some j"
        with tm have hj: "h \<noteq> jb" "timers s h = Some j" by (auto split: if_splits)
        from w1[OF hj(2)] hj(1) Some have "job_chat j \<noteq> c" by auto
        with w1[OF hj(2)] sc show "schedules ?s' (job_chat j) = Some h" by simp
      qed
      moreover have "\<forall>c' h j. schedules ?s' c' = Some h \<longrightarrow> timers ?s' h = Some j \<longrightarrow> job_chat j = c'"
        using w2 tm sc by (auto split: if_splits)
      moreover have "\<forall>c' h. schedules ?s' c' = Some h \<longrightarrow> h < nextJob ?s'"
        using w3 sc nj by (auto split: if_splits)
      ultimately show ?thesis unfolding wf_def by blast
    qed
  qed
qed

lemma wf_handle: "wf s \<Longrightarrow> wf (handle ev s)"
proof (cases ev)
  case (EvText c sel n t)
  assume "wf s"
  then show ?thesis using EvText
    by (auto simp: on_text_def wf_createScheduledJob split: option.split)
next
  case (EvStop ty c)
  assume "wf s"
  then show ?thesis using EvStop by (simp add: wf_stop_command)
next
  case (EvTick h u)
  assume "wf s"
  then show ?thesis using EvTick by (simp add: wf_cong[OF fire_frame(1-3)])
next
  case (EvVideo a i c t)
  assume "wf s"
  then show ?thesis using EvVideo
    by (auto simp: on_video_def saveVideos_def Let_def wf_def)
next
  case (EvPhoto a i c t)
  assume "wf s"
  then show ?thesis using EvPhoto
    by (auto simp: on_photo_def saveImages_def Let_def wf_def)
next
  case (EvDeleteVideo a x)
  assume "wf s"
  then show ?thesis using EvDeleteVideo
    by (auto simp: deletevideo_def saveVideos_def wf_def split: option.split prod.split)
next
  case (EvDeleteImage a x)
  assume "wf s"
  then show ?thesis using EvDeleteImage
    by (auto simp: deleteimage_def saveImages_def wf_def split: option.split prod.split)
next
  case (EvDeleteVideos a x)
  assume "wf s"
  then show ?thesis using EvDeleteVideos
    by (auto simp: deletevideos_def saveVideos_def wf_def split: sum.split prod.split)
next
  case (EvDeleteImages a x)
  assume "wf s"
  then show ?thesis using EvDeleteImages
    by (auto simp: deleteimages_def saveImages_def wf_def split: sum.split prod.split)
qed

lemma wf_run: "wf s \<Longrightarrow> wf (run evs s)"
  unfolding run_def by (induction evs arbitrary: s) (simp_all add: wf_handle)

lemma wf_recreateJob: "wf s \<Longrightarrow> wf (recreateJob clock k s)"
  by (simp add: recreateJob_def wf_createScheduledJob split: option.split)

lemma wf_recreateJobs: "wf s \<Longrightarrow> wf (recreateJobs clock s)"
proof -
  have "\<And>s. wf s \<Longrightarrow> wf (fold (recreateJob clock) ks s)" for ks
    by (induction ks) (simp_all add: wf_recreateJob)
  then show "wf s \<Longrightarrow> wf (recreateJobs clock s)" by (simp add: recreateJobs_def)
qed

text \<open>The job table is consistent in every state the bot can reach.\<close>

lemma wf_reachable: "wf (run evs (startup clock vf imf sf))"
  by (simp add: startup_def wf_run wf_recreateJobs wf_boot)

text \<open>
  Claim C4. In a state with a consistent job table (every reachable state, by
  \<open>wf_reachable\<close>), two calls of \<open>createScheduledJob\<close> for the same chat leave exactly one
  armed job for the chat: the second call cancels the job of the first before it arms
  its own, and the job, the handle and the stored entry carry the second call's interval
  and media type.
\<close>

theorem setSchedule_twice_leaves_one_job:
  assumes w: "wf s"
  shows "timers_of (createScheduledJob c i2 m2 t2 (createScheduledJob c i1 m1 t1 s)) c =
       {(Suc (nextJob s), \<lparr>job_chat = c, job_interval = i2, job_mediaType = m2\<rparr>)}
     \<and> schedules (createScheduledJob c i2 m2 t2 (createScheduledJob c i1 m1 t1 s)) c
         = Some (Suc (nextJob s))
     \<and> timers (createScheduledJob c i2 m2 t2 (createScheduledJob c i1 m1 t1 s)) (nextJob s) = None
     \<and> map_of (scheduleData (createScheduledJob c i2 m2 t2 (createScheduledJob c i1 m1 t1 s))) c
         = Some \<lparr>interval = i2, mediaType = m2, createdAt = t2\<rparr>
     \<and> schedulesFile (createScheduledJob c i2 m2 t2 (createScheduledJob c i1 m1 t1 s))
         = scheduleData (createScheduledJob c i2 m2 t2 (createScheduledJob c i1 m1 t1 s))"
proof -
  let ?s1 = "createScheduledJob c i1 m1 t1 s"
  have w1: "wf ?s1" using w by (rule wf_createScheduledJob)
  have n1: "nextJob ?s1 = Suc (nextJob s)" by (simp add: createScheduledJob_fields)
  have sc1: "schedules ?s1 c = Some (nextJob s)" by (simp add: createScheduledJob_fields)
  have "timers_of (createScheduledJob c i2 m2 t2 ?s1) c =
       {(Suc (nextJob s), \<lparr>job_chat = c, job_interval = i2, job_mediaType = m2\<rparr>)}"
    using timers_of_create_same[OF w1, of c i2 m2 t2] n1 by simp
  moreover have "timers (createScheduledJob c i2 m2 t2 ?s1) (nextJob s) = None"
    using sc1 n1 by (simp add: createScheduledJob_timers[of c i2 m2 t2 ?s1])
  ultimately show ?thesis
    by (simp add: createScheduledJob_fields update_conv')
qed

theorem setSchedule_twice_leaves_one_job_witness:
  "wf (boot [] [] [])
   \<and> timers_of (createScheduledJob ''chat1'' 10 ''videos'' ''t2''
        (createScheduledJob ''chat1'' 30 ''images'' ''t1'' (boot [] [] []))) ''chat1''
      = {(1, \<lparr>job_chat = ''chat1'', job_interval = 10, job_mediaType = ''videos''\<rparr>)}
   \<and> map_of (scheduleData (createScheduledJob ''chat1'' 10 ''videos'' ''t2''
        (createScheduledJob ''chat1'' 30 ''images'' ''t1'' (boot [] [] [])))) ''chat1''
      = Some \<lparr>interval = 10, mediaType = ''videos'', createdAt = ''t2''\<rparr>"
proof -
  have w: "wf (boot [] [] [])" by (rule wf_boot)
  have n: "nextJob (boot [] [] []) = 0" by (simp add: boot_def)
  from setSchedule_twice_leaves_one_job[OF w, of "''chat1''" 10 "''videos''" "''t2''" 30 "''images''" "''t1''"]
  show ?thesis using w n by simp
qed

lemma map_of_delete: "map_of (AList.delete k al) = (map_of al)(k := None)"
  by (rule delete_conv')

text \<open>Cancelling the job a chat's handle names leaves the chat without an armed job.\<close>

lemma cancelSchedule_cases_aux:
  assumes np: "ty \<noteq> ''private''" and w: "wf s" and h: "schedules s c = Some h"
  shows "timers_of (snd (stop_command ty c s)) c = {}"
proof -
  from w have w1: "\<And>h jb. timers s h = Some jb \<Longrightarrow> schedules s (job_chat jb) = Some h"
    unfolding wf_def by blast
  from np h have tm: "timers (snd (stop_command ty c s)) = (timers s)(h := None)"
    by (simp add: stop_command_def saveScheduleData_def Let_def)
  have "\<And>k jb. \<not> (timers (snd (stop_command ty c s)) k = Some jb \<and> job_chat jb = c)"
  proof
    fix k jb assume a: "timers (snd (stop_command ty c s)) k = Some jb \<and> job_chat jb = c"
    with tm have "k \<noteq> h" "timers s k = Some jb" by (auto split: if_splits)
    with w1[of k jb] a h show False by simp
  qed
  then show ?thesis unfolding timers_of_def by auto
qed

text \<open>
  Claim C5. \<open>/stop\<close> in a chat that is not private. With a job handle for the chat: the
  job is cancelled, the handle and the entry are removed, the registry is written to
  its file and the chat's tracker is removed; in a consistent job table no armed job
  for the chat remains. Without a handle but with a stored entry: the entry is removed,
  the registry is written and the tracker is removed, and the answer is the same.
  With neither: the answer is that nothing was scheduled and the state is unchanged.
  The entries and trackers of other chats and the pools are not touched.
\<close>

theorem cancelSchedule_cases:
  assumes np: "ty \<noteq> ''private''"
  shows
   "(\<forall>h. schedules s c = Some h \<longrightarrow>
        fst (stop_command ty c s) = Stopped
        \<and> timers (snd (stop_command ty c s)) h = None
        \<and> (wf s \<longrightarrow> timers_of (snd (stop_command ty c s)) c = {}))
    \<and> (schedules s c = None \<and> map_of (scheduleData s) c \<noteq> None \<longrightarrow>
        fst (stop_command ty c s) = Stopped
        \<and> timers (snd (stop_command ty c s)) = timers s)
    \<and> (schedules s c \<noteq> None \<or> map_of (scheduleData s) c \<noteq> None \<longrightarrow>
        schedules (snd (stop_command ty c s)) c = None
        \<and> map_of (scheduleData (snd (stop_command ty c s))) = (map_of (scheduleData s))(c := None)
        \<and> schedulesFile (snd (stop_command ty c s)) = scheduleData (snd (stop_command ty c s))
        \<and> sentMediaTracking (snd (stop_command ty c s)) = (sentMediaTracking s)(c := None)
        \<and> videos (snd (stop_command ty c s)) = videos s
        \<and> images (snd (stop_command ty c s)) = images s)
    \<and> (schedules s c = None \<and> map_of (scheduleData s) c = None \<longrightarrow>
        stop_command ty c s = (NothingToStop, s))"
proof (intro conjI allI impI)
  fix h assume h: "schedules s c = Some h"
  with np show "fst (stop_command ty c s) = Stopped"
    and th: "timers (snd (stop_command ty c s)) h = None"
    by (simp_all add: stop_command_def saveScheduleData_def Let_def)
  assume w: "wf s"
  from cancelSchedule_cases_aux[OF np w h]
  show "timers_of (snd (stop_command ty c s)) c = {}" .
next
  assume "schedules s c = None \<and> map_of (scheduleData s) c \<noteq> None"
  with np show "fst (stop_command ty c s) = Stopped"
    and "timers (snd (stop_command ty c s)) = timers s"
    by (auto simp: stop_command_def saveScheduleData_def Let_def)
next
  assume a: "schedules s c \<noteq> None \<or> map_of (scheduleData s) c \<noteq> None"
  with np show "schedules (snd (stop_command ty c s)) c = None"
    by (auto simp: stop_command_def saveScheduleData_def Let_def split: option.split)
  from a np show "map_of (scheduleData (snd (stop_command ty c s))) = (map_of (scheduleData s))(c := None)"
    by (auto simp: stop_command_def saveScheduleData_def Let_def map_of_delete split: option.split)
  from a np show "schedulesFile (snd (stop_command ty c s)) = scheduleData (snd (stop_command ty c s))"
    by (auto simp: stop_command_def saveScheduleData_def Let_def split: option.split)
  from a np show "sentMediaTracking (snd (stop_command ty c s)) = (sentMediaTracking s)(c := None)"
    by (auto simp: stop_command_def saveScheduleData_def Let_def split: option.split)
  from a np show "videos (snd (stop_command ty c s)) = videos s"
    by (auto simp: stop_command_def saveScheduleData_def Let_def split: option.split)
  from a np show "images (snd (stop_command ty c s)) = images s"
    by (auto simp: stop_command_def saveScheduleData_def Let_def split: option.split)
next
  assume "schedules s c = None \<and> map_of (scheduleData s) c = None"
  with np show "stop_command ty c s = (NothingToStop, s)"
    by (simp add: stop_command_def)
qed

theorem cancelSchedule_cases_witness:
  "''group'' \<noteq> ''private''
   \<and> wf (createScheduledJob ''g'' 30 ''images'' ''t1'' (boot [] [] []))
   \<and> schedules (createScheduledJob ''g'' 30 ''images'' ''t1'' (boot [] [] [])) ''g'' = Some 0
   \<and> fst (stop_command ''group'' ''g'' (createScheduledJob ''g'' 30 ''images'' ''t1'' (boot [] [] [])))
       = Stopped
   \<and> timers_of (snd (stop_command ''group'' ''g''
        (createScheduledJob ''g'' 30 ''images'' ''t1'' (boot [] [] [])))) ''g'' = {}
   \<and> scheduleData (snd (stop_command ''group'' ''g''
        (createScheduledJob ''g'' 30 ''images'' ''t1'' (boot [] [] [])))) = []
   \<and> schedulesFile (snd (stop_command ''group'' ''g''
        (createScheduledJob ''g'' 30 ''images'' ''t1'' (boot [] [] [])))) = []
   \<and> stop_command ''group'' ''g''
        (boot [] [] [(''g'', \<lparr>interval = 30, mediaType = ''images'', createdAt = ''t1''\<rparr>)])
      = (Stopped, boot [] [] [])
   \<and> stop_command ''group'' ''g'' (boot [] [] []) = (NothingToStop, boot [] [] [])"
proof -
  let ?s1 = "createScheduledJob ''g'' 30 ''images'' ''t1'' (boot [] [] [])"
  have np: "''group'' \<noteq> ''private''" by simp
  have w: "wf ?s1" by (rule wf_createScheduledJob[OF wf_boot])
  have h: "schedules ?s1 ''g'' = Some 0" by (simp add: createScheduledJob_fields boot_def)
  have n: "schedules (boot [] [] []) ''g'' = None \<and> map_of (scheduleData (boot [] [] [])) ''g'' = None"
    by (simp add: boot_def)
  from cancelSchedule_cases[OF np, of ?s1 "''g''"] h w
  have 1: "fst (stop_command ''group'' ''g'' ?s1) = Stopped"
    and 2: "timers_of (snd (stop_command ''group'' ''g'' ?s1)) ''g'' = {}"
    by simp_all
  from cancelSchedule_cases[OF np, of "boot [] [] []" "''g''"] n
  have 3: "stop_command ''group'' ''g'' (boot [] [] []) = (NothingToStop, boot [] [] [])"
    by simp
  have 4: "scheduleData (snd (stop_command ''group'' ''g'' ?s1)) = []"
    "schedulesFile (snd (stop_command ''group'' ''g'' ?s1)) = []"
    using h by (simp_all add: stop_command_def saveScheduleData_def Let_def
        createScheduledJob_fields boot_def)
  have 5: "stop_command ''group'' ''g''
        (boot [] [] [(''g'', \<lparr>interval = 30, mediaType = ''images'', createdAt = ''t1''\<rparr>)])
      = (Stopped, boot [] [] [])"
    by (simp add: stop_command_def saveScheduleData_def Let_def boot_def)
  from np w h 1 2 3 4 5 show ?thesis by simp
qed

lemma fire_dispatch:
  assumes "fst (fire h u s) = Some (Dispatched d)"
  shows "\<exists>jb. timers s h = Some jb \<and> job_chat jb = dispatch_chat d"
proof (cases "timers s h")
  case None
  with assms show ?thesis by (simp add: fire_def)
next
  case (Some jb)
  with assms have "fst (onTick jb u s) = Dispatched d"
    by (simp add: fire_def split: prod.splits)
  then have "dispatch_chat d = job_chat jb"
    by (auto simp: onTick_def Let_def split: if_splits prod.splits option.splits)
  with Some show ?thesis by simp
qed

lemma timers_of_cong: "timers s' = timers s \<Longrightarrow> timers_of s' c = timers_of s c"
  by (simp add: timers_of_def)

lemma timers_of_empty_iff:
  "timers_of s c = {} \<longleftrightarrow> (\<forall>h jb. timers s h = Some jb \<longrightarrow> job_chat jb \<noteq> c)"
  by (auto simp: timers_of_def)

lemma fires_timers: "timers (snd (fires ts s)) = timers s"
proof (induction ts arbitrary: s)
  case Nil
  show ?case by simp
next
  case (Cons t ts)
  obtain h u where t: "t = (h, u)" by (cases t)
  have "timers (snd (fires ts (snd (fire h u s)))) = timers s"
    by (simp add: Cons.IH fire_frame)
  then show ?case using t by (simp split: prod.split) (metis snd_conv)
qed

text \<open>While a chat has no armed job, no tick sends anything to it.\<close>

lemma fires_no_dispatch:
  "timers_of s c = {} \<Longrightarrow> Some (Dispatched d) \<in> set (fst (fires ts s)) \<Longrightarrow> dispatch_chat d \<noteq> c"
proof (induction ts arbitrary: s)
  case Nil
  then show ?case by simp
next
  case (Cons t ts)
  obtain h u where t: "t = (h, u)" by (cases t)
  obtain out s1 where f: "fire h u s = (out, s1)" by (cases "fire h u s")
  obtain outs s2 where g: "fires ts s1 = (outs, s2)" by (cases "fires ts s1")
  from f have s1: "s1 = snd (fire h u s)" and out: "out = fst (fire h u s)" by simp_all
  have e1: "timers_of s1 c = {}"
    using Cons.prems(1) s1 by (simp add: timers_of_cong[OF fire_frame(1)])
  from Cons.prems(2) t f g have "Some (Dispatched d) = out \<or> Some (Dispatched d) \<in> set outs"
    by simp
  then show ?case
  proof
    assume "Some (Dispatched d) = out"
    with out have "fst (fire h u s) = Some (Dispatched d)" by simp
    from fire_dispatch[OF this] Cons.prems(1) show ?thesis
      by (auto simp: timers_of_empty_iff)
  next
    assume "Some (Dispatched d) \<in> set outs"
    with g have "Some (Dispatched d) \<in> set (fst (fires ts s1))" by simp
    from Cons.IH[OF e1 this] show ?thesis .
  qed
qed

text \<open>
  Claim C6. In a state with a consistent job table, after \<open>/stop\<close> has answered that the
  sending is stopped, the chat has no armed job; whatever ticks follow, and however
  many, none of them calls the transport for this chat, and a tick of the cancelled
  handle does not run the callback.
\<close>

theorem no_dispatch_after_cancel:
  assumes w: "wf s" and st: "fst (stop_command ty c s) = Stopped"
  shows "timers_of (snd (stop_command ty c s)) c = {}
     \<and> (\<forall>d. Some (Dispatched d) \<in> set (fst (fires ts (snd (stop_command ty c s))))
            \<longrightarrow> dispatch_chat d \<noteq> c)
     \<and> (\<forall>h u. schedules s c = Some h \<longrightarrow>
            fst (fire h u (snd (fires ts (snd (stop_command ty c s))))) = None)"
proof -
  let ?s' = "snd (stop_command ty c s)"
  from st have np: "ty \<noteq> ''private''" by (auto simp: stop_command_def)
  from w have w1: "\<And>h jb. timers s h = Some jb \<Longrightarrow> schedules s (job_chat jb) = Some h"
    unfolding wf_def by blast
  have e: "timers_of ?s' c = {}"
  proof (cases "schedules s c")
    case (Some h)
    show ?thesis by (rule cancelSchedule_cases_aux[OF np w Some])
  next
    case None
    with st np have "timers ?s' = timers s"
      by (auto simp: stop_command_def saveScheduleData_def Let_def split: option.splits)
    moreover have "timers_of s c = {}"
      unfolding timers_of_empty_iff
    proof (intro allI impI notI)
      fix h jb assume "timers s h = Some jb" and "job_chat jb = c"
      with w1[of h jb] None show False by simp
    qed
    ultimately show ?thesis by (simp add: timers_of_def)
  qed
  have d: "\<forall>d. Some (Dispatched d) \<in> set (fst (fires ts ?s')) \<longrightarrow> dispatch_chat d \<noteq> c"
    using fires_no_dispatch[OF e] by blast
  have f: "\<forall>h u. schedules s c = Some h \<longrightarrow> fst (fire h u (snd (fires ts ?s'))) = None"
  proof (intro allI impI)
    fix h u assume h: "schedules s c = Some h"
    with np have "timers ?s' h = None"
      by (simp add: stop_command_def saveScheduleData_def Let_def)
    then have "timers (snd (fires ts ?s')) h = None" by (simp add: fires_timers)
    then show "fst (fire h u (snd (fires ts ?s'))) = None" by (simp add: fire_def)
  qed
  from e d f show ?thesis by blast
qed

text \<open>
  A chat with a schedule for videos and one video in the pool: before \<open>/stop\<close> a tick of
  its job sends the video; after \<open>/stop\<close> the ticks of the job send nothing.
\<close>

theorem no_dispatch_after_cancel_witness:
  "wf (createScheduledJob ''g'' 1 ''videos'' ''t1'' (boot [vid ''a''] [] []))
   \<and> fst (fire 0 0 (createScheduledJob ''g'' 1 ''videos'' ''t1'' (boot [vid ''a''] [] [])))
       = Some (Dispatched (SendVideo ''g'' ''a'' []))
   \<and> fst (stop_command ''group'' ''g''
        (createScheduledJob ''g'' 1 ''videos'' ''t1'' (boot [vid ''a''] [] []))) = Stopped
   \<and> timers_of (snd (stop_command ''group'' ''g''
        (createScheduledJob ''g'' 1 ''videos'' ''t1'' (boot [vid ''a''] [] [])))) ''g'' = {}
   \<and> fst (fires [(0, 0), (0, 1)] (snd (stop_command ''group'' ''g''
        (createScheduledJob ''g'' 1 ''videos'' ''t1'' (boot [vid ''a''] [] [])))))
       = [None, None]"
proof -
  let ?s1 = "createScheduledJob ''g'' 1 ''videos'' ''t1'' (boot [vid ''a''] [] [])"
  have w: "wf ?s1" by (rule wf_createScheduledJob[OF wf_boot])
  have st: "fst (stop_command ''group'' ''g'' ?s1) = Stopped"
    by (simp add: stop_command_def createScheduledJob_fields Let_def saveScheduleData_def)
  have f0: "fst (fire 0 0 ?s1) = Some (Dispatched (SendVideo ''g'' ''a'' []))"
    by (simp add: fire_def createScheduledJob_timers createScheduledJob_fields boot_def onTick_def
        mediaToSend_def getNextUnsentMedia_def filter_js_def sent_of_def js_nth_def
        rand_index_def Let_def)
  have fs: "fst (fires [(0, 0), (0, 1)] (snd (stop_command ''group'' ''g'' ?s1))) = [None, None]"
    by (simp add: fire_def stop_command_def createScheduledJob_timers createScheduledJob_fields
        boot_def Let_def saveScheduleData_def)
  from no_dispatch_after_cancel[OF w st, of "[(0, 0), (0, 1)]"]
  have "timers_of (snd (stop_command ''group'' ''g'' ?s1)) ''g'' = {}" by blast
  with w st f0 fs show ?thesis by simp
qed

section \<open>Persistence of every mutation\<close>

lemma handle_videos:
  "(videos (handle ev s) = videos s \<and> videosFile (handle ev s) = videosFile s)
   \<or> videosFile (handle ev s) = videos (handle ev s)"
proof (cases ev)
  case (EvText c sel n t)
  then show ?thesis
    by (auto simp: on_text_def createScheduledJob_fields split: option.split)
next
  case (EvStop ty c)
  then show ?thesis
    by (auto simp: stop_command_def saveScheduleData_def Let_def split: option.split)
next
  case (EvTick h u)
  then show ?thesis by (simp add: fire_frame)
next
  case (EvVideo a i c t)
  then show ?thesis by (auto simp: on_video_def saveVideos_def Let_def)
next
  case (EvPhoto a i c t)
  then show ?thesis by (auto simp: on_photo_def saveImages_def Let_def)
next
  case (EvDeleteVideo a x)
  then show ?thesis
    by (auto simp: deletevideo_def saveVideos_def split: option.split prod.split)
next
  case (EvDeleteImage a x)
  then show ?thesis
    by (auto simp: deleteimage_def saveImages_def split: option.split prod.split)
next
  case (EvDeleteVideos a x)
  then show ?thesis
    by (auto simp: deletevideos_def saveVideos_def split: sum.split prod.split)
next
  case (EvDeleteImages a x)
  then show ?thesis
    by (auto simp: deleteimages_def saveImages_def split: sum.split prod.split)
qed

lemma handle_images:
  "(images (handle ev s) = images s \<and> imagesFile (handle ev s) = imagesFile s)
   \<or> imagesFile (handle ev s) = images (handle ev s)"
proof (cases ev)
  case (EvText c sel n t)
  then show ?thesis
    by (auto simp: on_text_def createScheduledJob_fields split: option.split)
next
  case (EvStop ty c)
  then show ?thesis
    by (auto simp: stop_command_def saveScheduleData_def Let_def split: option.split)
next
  case (EvTick h u)
  then show ?thesis by (simp add: fire_frame)
next
  case (EvVideo a i c t)
  then show ?thesis by (auto simp: on_video_def saveVideos_def Let_def)
next
  case (EvPhoto a i c t)
  then show ?thesis by (auto simp: on_photo_def saveImages_def Let_def)
next
  case (EvDeleteVideo a x)
  then show ?thesis
    by (auto simp: deletevideo_def saveVideos_def split: option.split prod.split)
next
  case (EvDeleteImage a x)
  then show ?thesis
    by (auto simp: deleteimage_def saveImages_def split: option.split prod.split)
next
  case (EvDeleteVideos a x)
  then show ?thesis
    by (auto simp: deletevideos_def saveVideos_def split: sum.split prod.split)
next
  case (EvDeleteImages a x)
  then show ?thesis
    by (auto simp: deleteimages_def saveImages_def split: sum.split prod.split)
qed

lemma handle_scheduleData:
  "(scheduleData (handle ev s) = scheduleData s \<and> schedulesFile (handle ev s) = schedulesFile s)
   \<or> schedulesFile (handle ev s) = scheduleData (handle ev s)"
proof (cases ev)
  case (EvText c sel n t)
  then show ?thesis
    by (auto simp: on_text_def createScheduledJob_fields split: option.split)
next
  case (EvStop ty c)
  then show ?thesis
    by (auto simp: stop_command_def saveScheduleData_def Let_def split: option.split)
next
  case (EvTick h u)
  then show ?thesis by (simp add: fire_frame)
next
  case (EvVideo a i c t)
  then show ?thesis by (auto simp: on_video_def saveVideos_def Let_def)
next
  case (EvPhoto a i c t)
  then show ?thesis by (auto simp: on_photo_def saveImages_def Let_def)
next
  case (EvDeleteVideo a x)
  then show ?thesis
    by (auto simp: deletevideo_def saveVideos_def split: option.split prod.split)
next
  case (EvDeleteImage a x)
  then show ?thesis
    by (auto simp: deleteimage_def saveImages_def split: option.split prod.split)
next
  case (EvDeleteVideos a x)
  then show ?thesis
    by (auto simp: deletevideos_def saveVideos_def split: sum.split prod.split)
next
  case (EvDeleteImages a x)
  then show ?thesis
    by (auto simp: deleteimages_def saveImages_def split: sum.split prod.split)
qed

lemma durable_handle: "durable s \<Longrightarrow> durable (handle ev s)"
  using handle_videos[of ev s] handle_images[of ev s] handle_scheduleData[of ev s]
  unfolding durable_def by auto

lemma durable_run: "durable s \<Longrightarrow> durable (run evs s)"
  unfolding run_def by (induction evs arbitrary: s) (simp_all add: durable_handle)

lemma durable_createScheduledJob: "durable s \<Longrightarrow> durable (createScheduledJob c i m t s)"
  by (simp add: durable_def createScheduledJob_fields)

lemma durable_recreateJobs: "durable s \<Longrightarrow> durable (recreateJobs clock s)"
proof -
  have "\<And>s. durable s \<Longrightarrow> durable (fold (recreateJob clock) ks s)" for ks
    by (induction ks) (simp_all add: recreateJob_def durable_createScheduledJob split: option.split)
  then show "durable s \<Longrightarrow> durable (recreateJobs clock s)" by (simp add: recreateJobs_def)
qed

lemma durable_startup: "durable (startup clock vf imf sf)"
  unfolding startup_def by (rule durable_recreateJobs) (simp add: durable_def boot_def)

text \<open>
  Claim C9. Every handler that changes a pool or the schedule registry writes the whole
  collection to its file before it returns: after any event, a collection that differs
  from what it was equals the contents of its file. Hence, the writes succeeding, the
  collections in memory equal the files after every event if they did before, and they
  do in every state reached from program start.
\<close>

theorem mutations_are_persisted:
  "(videos (handle ev s) \<noteq> videos s \<longrightarrow> videosFile (handle ev s) = videos (handle ev s))
   \<and> (images (handle ev s) \<noteq> images s \<longrightarrow> imagesFile (handle ev s) = images (handle ev s))
   \<and> (scheduleData (handle ev s) \<noteq> scheduleData s \<longrightarrow>
         schedulesFile (handle ev s) = scheduleData (handle ev s))
   \<and> (durable s \<longrightarrow> durable (handle ev s))
   \<and> durable (run evs (startup clock vf imf sf))"
  using handle_videos[of ev s] handle_images[of ev s] handle_scheduleData[of ev s]
    durable_handle[of s ev] durable_run[OF durable_startup, of evs clock vf imf sf]
  by blast

theorem mutations_are_persisted_witness:
  "durable (boot [vid ''a''] [] [])
   \<and> videos (handle (EvVideo True ''b'' [] ''t0'') (boot [vid ''a''] [] [])) = [vid ''a'', vid ''b'']
   \<and> videosFile (handle (EvVideo True ''b'' [] ''t0'') (boot [vid ''a''] [] []))
       = [vid ''a'', vid ''b'']
   \<and> durable (handle (EvVideo True ''b'' [] ''t0'') (boot [vid ''a''] [] []))
   \<and> scheduleData (handle (EvText ''g'' (Some ''mix'') (Some (Num 5)) ''t1'') (boot [vid ''a''] [] []))
       = [(''g'', \<lparr>interval = 5, mediaType = ''mix'', createdAt = ''t1''\<rparr>)]
   \<and> schedulesFile (handle (EvText ''g'' (Some ''mix'') (Some (Num 5)) ''t1'') (boot [vid ''a''] [] []))
       = [(''g'', \<lparr>interval = 5, mediaType = ''mix'', createdAt = ''t1''\<rparr>)]"
proof -
  let ?s = "boot [vid ''a''] [] []"
  have d: "durable ?s" by (simp add: durable_def boot_def)
  have v: "videos (handle (EvVideo True ''b'' [] ''t0'') ?s) = [vid ''a'', vid ''b'']"
    by (simp add: on_video_def saveVideos_def boot_def)
  have sd: "scheduleData (handle (EvText ''g'' (Some ''mix'') (Some (Num 5)) ''t1'') ?s)
      = [(''g'', \<lparr>interval = 5, mediaType = ''mix'', createdAt = ''t1''\<rparr>)]"
    by (simp add: on_text_def createScheduledJob_fields boot_def)
  from mutations_are_persisted[of "EvVideo True ''b'' [] ''t0''" ?s] d v
  have 1: "videosFile (handle (EvVideo True ''b'' [] ''t0'') ?s) = [vid ''a'', vid ''b'']"
    and 2: "durable (handle (EvVideo True ''b'' [] ''t0'') ?s)"
    by (simp_all add: boot_def)
  from mutations_are_persisted[of "EvText ''g'' (Some ''mix'') (Some (Num 5)) ''t1''" ?s] sd
  have 3: "schedulesFile (handle (EvText ''g'' (Some ''mix'') (Some (Num 5)) ''t1'') ?s)
      = [(''g'', \<lparr>interval = 5, mediaType = ''mix'', createdAt = ''t1''\<rparr>)]"
    by (simp add: boot_def)
  from d v sd 1 2 3 show ?thesis by simp
qed

section \<open>Program start\<close>

lemma rearmed_boot: "rearmed clock sf {} (boot vf imf sf)"
  by (simp add: rearmed_def wf_boot) (simp add: boot_def timers_of_def)

lemma recreateJob_frame:
  "videos (recreateJob clock k s) = videos s"
  "images (recreateJob clock k s) = images s"
  "videosFile (recreateJob clock k s) = videosFile s"
  "imagesFile (recreateJob clock k s) = imagesFile s"
  "sentMediaTracking (recreateJob clock k s) = sentMediaTracking s"
  by (simp_all add: recreateJob_def createScheduledJob_fields split: option.split)

lemma rearmed_step:
  assumes r: "rearmed clock sf D s" and k: "k \<in> fst ` set sf"
  shows "rearmed clock sf (insert k D) (recreateJob clock k s)"
proof -
  from k obtain e0 where e0: "map_of sf k = Some e0"
    by (cases "map_of sf k") (auto simp: map_of_eq_None_iff)
  from r have w: "wf s" and keys: "map fst (scheduleData s) = map fst sf"
    and ent: "\<And>c e. map_of sf c = Some e \<Longrightarrow>
        map_of (scheduleData s) c = Some (if c \<in> D then e\<lparr>createdAt := clock c\<rparr> else e)"
    and arm: "\<And>c e. map_of sf c = Some e \<Longrightarrow> c \<in> D \<Longrightarrow>
        \<exists>h. schedules s c = Some h \<and> timers_of s c =
          {(h, \<lparr>job_chat = c, job_interval = interval e, job_mediaType = mediaType e\<rparr>)}"
    and un: "\<And>c. c \<notin> D \<Longrightarrow> timers_of s c = {}"
    unfolding rearmed_def by blast+
  let ?v = "\<lparr>interval = interval e0, mediaType = mediaType e0, createdAt = clock k\<rparr>"
  let ?s' = "createScheduledJob k (interval e0) (mediaType e0) (clock k) s"
  from ent[OF e0] have step: "recreateJob clock k s = ?s'"
    by (simp add: recreateJob_def)
  have v: "?v = e0\<lparr>createdAt := clock k\<rparr>" by simp
  have kin: "k \<in> set (map fst (scheduleData s))" using keys k by simp
  have 1: "wf ?s'" using w by (rule wf_createScheduledJob)
  have 2: "map fst (scheduleData ?s') = map fst sf"
    using kin keys by (simp add: createScheduledJob_fields update_keys)
  have 3: "schedulesFile ?s' = scheduleData ?s'" by (simp add: createScheduledJob_fields)
  have 4: "\<forall>c e. map_of sf c = Some e \<longrightarrow>
        map_of (scheduleData ?s') c = Some (if c \<in> insert k D then e\<lparr>createdAt := clock c\<rparr> else e)"
  proof (intro allI impI)
    fix c e assume ce: "map_of sf c = Some e"
    show "map_of (scheduleData ?s') c = Some (if c \<in> insert k D then e\<lparr>createdAt := clock c\<rparr> else e)"
    proof (cases "c = k")
      case True
      with ce e0 have "e = e0" by simp
      with True v show ?thesis by (simp add: createScheduledJob_fields update_conv')
    next
      case False
      with ent[OF ce] show ?thesis by (simp add: createScheduledJob_fields update_conv')
    qed
  qed
  have 5: "\<forall>c e. map_of sf c = Some e \<longrightarrow> c \<in> insert k D \<longrightarrow>
        (\<exists>h. schedules ?s' c = Some h \<and> timers_of ?s' c =
          {(h, \<lparr>job_chat = c, job_interval = interval e, job_mediaType = mediaType e\<rparr>)})"
  proof (intro allI impI)
    fix c e assume ce: "map_of sf c = Some e" and cD: "c \<in> insert k D"
    show "\<exists>h. schedules ?s' c = Some h \<and> timers_of ?s' c =
          {(h, \<lparr>job_chat = c, job_interval = interval e, job_mediaType = mediaType e\<rparr>)}"
    proof (cases "c = k")
      case True
      with ce e0 have "e = e0" by simp
      with True timers_of_create_same[OF w, of k "interval e0" "mediaType e0" "clock k"]
      show ?thesis by (simp add: createScheduledJob_fields)
    next
      case False
      with cD have "c \<in> D" by simp
      from arm[OF ce this] False timers_of_create_other[OF w False, of "interval e0" "mediaType e0" "clock k"]
      show ?thesis by (simp add: createScheduledJob_fields)
    qed
  qed
  have 6: "\<forall>c. c \<notin> insert k D \<longrightarrow> timers_of ?s' c = {}"
  proof (intro allI impI)
    fix c assume "c \<notin> insert k D"
    then have "c \<noteq> k" "c \<notin> D" by auto
    with un timers_of_create_other[OF w \<open>c \<noteq> k\<close>] show "timers_of ?s' c = {}" by simp
  qed
  from 1 2 3 4 5 6 show ?thesis unfolding step rearmed_def by blast
qed

lemma rearmed_fold:
  "rearmed clock sf D s \<Longrightarrow> set ks \<subseteq> fst ` set sf \<Longrightarrow>
     rearmed clock sf (D \<union> set ks) (fold (recreateJob clock) ks s)"
proof (induction ks arbitrary: D s)
  case Nil
  then show ?case by simp
next
  case (Cons k ks)
  from Cons.prems have k: "k \<in> fst ` set sf" and ks: "set ks \<subseteq> fst ` set sf" by auto
  from Cons.IH[OF rearmed_step[OF Cons.prems(1) k] ks]
  show ?case by simp
qed

lemma rearmed_startup: "rearmed clock sf (fst ` set sf) (startup clock vf imf sf)"
proof -
  have sd: "scheduleData (boot vf imf sf) = sf" by (simp add: boot_def)
  from rearmed_fold[OF rearmed_boot, of "map fst sf" sf clock vf imf]
  show ?thesis by (simp add: startup_def recreateJobs_def sd)
qed

lemma startup_frame:
  "videos (startup clock vf imf sf) = vf \<and> images (startup clock vf imf sf) = imf
   \<and> videosFile (startup clock vf imf sf) = vf \<and> imagesFile (startup clock vf imf sf) = imf
   \<and> sentMediaTracking (startup clock vf imf sf) = Map.empty"
proof -
  have "\<And>s. videos (fold (recreateJob clock) ks s) = videos s
      \<and> images (fold (recreateJob clock) ks s) = images s
      \<and> videosFile (fold (recreateJob clock) ks s) = videosFile s
      \<and> imagesFile (fold (recreateJob clock) ks s) = imagesFile s
      \<and> sentMediaTracking (fold (recreateJob clock) ks s) = sentMediaTracking s" for ks
    by (induction ks) (simp_all add: recreateJob_frame)
  then show ?thesis by (simp add: startup_def recreateJobs_def boot_def)
qed

text \<open>
  Claim C3, as the claim states it, fails: the startup loop calls \<open>createScheduledJob\<close>,
  which stores a new entry for the chat and writes the registry. With one persisted
  entry created at \<open>t0\<close> and a restart at \<open>t1\<close>, the entry in memory and in the file has
  \<open>createdAt = t1\<close> after the loop.
\<close>

theorem startup_rewrites_registry:
  "schedulesFile (startup (restart_at ''t1'') [] []
      [(''g'', \<lparr>interval = 30, mediaType = ''images'', createdAt = ''t0''\<rparr>)])
     = [(''g'', \<lparr>interval = 30, mediaType = ''images'', createdAt = ''t1''\<rparr>)]
   \<and> schedulesFile (startup (restart_at ''t1'') [] []
      [(''g'', \<lparr>interval = 30, mediaType = ''images'', createdAt = ''t0''\<rparr>)])
     \<noteq> [(''g'', \<lparr>interval = 30, mediaType = ''images'', createdAt = ''t0''\<rparr>)]"
  by (simp add: startup_def recreateJobs_def recreateJob_def boot_def createScheduledJob_fields
      restart_at_def)

text \<open>
  Claim C3, amended. After the startup loop the registry has the keys it was read with,
  in their order; every entry keeps its interval and media type and has the time of the
  restart as \<open>createdAt\<close>; the registry has been written, so the file equals the registry
  in memory; every chat of the registry has exactly one armed job, with the entry's
  interval and media type, and no other chat has a job. The pools, their files and the
  (empty) tracker are as \<open>boot\<close> left them.
\<close>

theorem startup_rearms_and_rewrites:
  "map fst (scheduleData (startup clock vf imf sf)) = map fst sf
   \<and> schedulesFile (startup clock vf imf sf) = scheduleData (startup clock vf imf sf)
   \<and> (\<forall>c e. map_of sf c = Some e \<longrightarrow>
        map_of (scheduleData (startup clock vf imf sf)) c = Some (e\<lparr>createdAt := clock c\<rparr>)
        \<and> (\<exists>h. schedules (startup clock vf imf sf) c = Some h
              \<and> timers_of (startup clock vf imf sf) c =
                {(h, \<lparr>job_chat = c, job_interval = interval e, job_mediaType = mediaType e\<rparr>)}))
   \<and> (\<forall>c. map_of sf c = None \<longrightarrow> timers_of (startup clock vf imf sf) c = {})
   \<and> videos (startup clock vf imf sf) = vf \<and> images (startup clock vf imf sf) = imf
   \<and> videosFile (startup clock vf imf sf) = vf \<and> imagesFile (startup clock vf imf sf) = imf
   \<and> sentMediaTracking (startup clock vf imf sf) = Map.empty"
proof -
  let ?s = "startup clock vf imf sf"
  from rearmed_startup[of clock sf vf imf]
  have keys: "map fst (scheduleData ?s) = map fst sf"
    and fl: "schedulesFile ?s = scheduleData ?s"
    and ent: "\<And>c e. map_of sf c = Some e \<Longrightarrow>
        map_of (scheduleData ?s) c = Some (if c \<in> fst ` set sf then e\<lparr>createdAt := clock c\<rparr> else e)"
    and arm: "\<And>c e. map_of sf c = Some e \<Longrightarrow> c \<in> fst ` set sf \<Longrightarrow>
        \<exists>h. schedules ?s c = Some h \<and> timers_of ?s c =
          {(h, \<lparr>job_chat = c, job_interval = interval e, job_mediaType = mediaType e\<rparr>)}"
    and un: "\<And>c. c \<notin> fst ` set sf \<Longrightarrow> timers_of ?s c = {}"
    unfolding rearmed_def by blast+
  have dom: "\<And>c e. map_of sf c = Some e \<Longrightarrow> c \<in> fst ` set sf"
    by (metis map_of_eq_None_iff option.distinct(1))
  have a: "\<forall>c e. map_of sf c = Some e \<longrightarrow>
        map_of (scheduleData ?s) c = Some (e\<lparr>createdAt := clock c\<rparr>)
        \<and> (\<exists>h. schedules ?s c = Some h \<and> timers_of ?s c =
              {(h, \<lparr>job_chat = c, job_interval = interval e, job_mediaType = mediaType e\<rparr>)})"
    using ent arm dom by simp
  have b: "\<forall>c. map_of sf c = None \<longrightarrow> timers_of ?s c = {}"
    using un by (simp add: map_of_eq_None_iff)
  from keys fl a b startup_frame[of clock vf imf sf] show ?thesis by blast
qed

theorem startup_rearms_and_rewrites_witness:
  "map_of [(''g'', \<lparr>interval = 30, mediaType = ''images'', createdAt = ''t0''\<rparr>)] ''g''
     = Some \<lparr>interval = 30, mediaType = ''images'', createdAt = ''t0''\<rparr>
   \<and> map_of (scheduleData (startup (restart_at ''t1'') [] []
        [(''g'', \<lparr>interval = 30, mediaType = ''images'', createdAt = ''t0''\<rparr>)])) ''g''
     = Some \<lparr>interval = 30, mediaType = ''images'', createdAt = ''t1''\<rparr>
   \<and> timers_of (startup (restart_at ''t1'') [] []
        [(''g'', \<lparr>interval = 30, mediaType = ''images'', createdAt = ''t0''\<rparr>)]) ''g''
     = {(0, \<lparr>job_chat = ''g'', job_interval = 30, job_mediaType = ''images''\<rparr>)}
   \<and> timers_of (startup (restart_at ''t1'') [] []
        [(''g'', \<lparr>interval = 30, mediaType = ''images'', createdAt = ''t0''\<rparr>)]) ''h'' = {}"
proof -
  let ?sf = "[(''g'', \<lparr>interval = 30, mediaType = ''images'', createdAt = ''t0''\<rparr>)]"
  let ?s = "startup (restart_at ''t1'') [] [] ?sf"
  have m: "map_of ?sf ''g'' = Some \<lparr>interval = 30, mediaType = ''images'', createdAt = ''t0''\<rparr>"
    and n: "map_of ?sf ''h'' = None" by simp_all
  have h: "schedules ?s ''g'' = Some 0"
    by (simp add: startup_def recreateJobs_def recreateJob_def boot_def createScheduledJob_fields)
  note t = startup_rearms_and_rewrites[of "restart_at ''t1''" "[]" "[]" ?sf]
  note tg = t[THEN conjunct2, THEN conjunct2, THEN conjunct1, rule_format, OF m]
  note th = t[THEN conjunct2, THEN conjunct2, THEN conjunct2, THEN conjunct1, rule_format, OF n]
  from tg have 1: "map_of (scheduleData ?s) ''g''
      = Some \<lparr>interval = 30, mediaType = ''images'', createdAt = ''t1''\<rparr>"
    by (simp add: restart_at_def)
  from tg h have 2: "timers_of ?s ''g''
      = {(0, \<lparr>job_chat = ''g'', job_interval = 30, job_mediaType = ''images''\<rparr>)}"
    by auto
  from th have 3: "timers_of ?s ''h'' = {}" .
  from m 1 2 3 show ?thesis by simp
qed

section \<open>The lists a job draws from hold pairwise different entries\<close>

lemma splice1_set: "set (snd (splice1 i xs)) \<subseteq> set xs"
proof -
  have "set (take k xs @ drop (Suc k) xs) \<subseteq> set xs" for k
    using set_take_subset[of k xs] set_drop_subset[of "Suc k" xs] by auto
  then show ?thesis by (simp add: splice1_def Let_def)
qed

lemma distinct_remove_nth:
  assumes "distinct (map f xs)"
  shows "distinct (map f (take k xs @ drop (Suc k) xs))"
proof -
  let ?ys = "map f xs"
  from assms have "set (take k ?ys) \<inter> set (drop (Suc k) ?ys) = {}"
    by (rule set_take_disj_set_drop_if_distinct) simp
  moreover from assms have "distinct (take k ?ys)" "distinct (drop (Suc k) ?ys)"
    by (rule distinct_take, rule distinct_drop)
  ultimately have "distinct (take k ?ys @ drop (Suc k) ?ys)" by simp
  then show ?thesis by (simp only: map_append take_map drop_map)
qed

lemma splice1_distinct: "distinct (map f xs) \<Longrightarrow> distinct (map f (snd (splice1 i xs)))"
  unfolding splice1_def Let_def snd_conv by (rule distinct_remove_nth)

lemma splice_all_set: "set (snd (splice_all is xs)) \<subseteq> set xs"
proof (induction "is" arbitrary: xs)
  case Nil
  show ?case by simp
next
  case (Cons i "is")
  have "set (snd (splice_all is (snd (splice1 (Num i) xs)))) \<subseteq> set xs"
    using Cons.IH[of "snd (splice1 (Num i) xs)"] splice1_set[of "Num i" xs] by blast
  then show ?case by (simp split: prod.split) (metis snd_conv)
qed

lemma splice_all_distinct:
  "distinct (map f xs) \<Longrightarrow> distinct (map f (snd (splice_all is xs)))"
proof (induction "is" arbitrary: xs)
  case Nil
  then show ?case by simp
next
  case (Cons i "is")
  have "distinct (map f (snd (splice_all is (snd (splice1 (Num i) xs)))))"
    using Cons.IH[OF splice1_distinct[OF Cons.prems]] .
  then show ?case by (simp split: prod.split) (metis snd_conv)
qed

lemma pool_ok_cong:
  "videos s' = videos s \<Longrightarrow> images s' = images s \<Longrightarrow> pool_ok s' = pool_ok s"
  by (simp add: pool_ok_def)

lemma pool_ok_videos:
  assumes "pool_ok s" and "distinct (map id_m vs)" and "\<forall>v \<in> set vs. type_m v = ''video''"
  shows "pool_ok (saveVideos (s\<lparr>videos := vs\<rparr>))"
  using assms by (simp add: pool_ok_def saveVideos_def)

lemma pool_ok_images:
  assumes "pool_ok s" and "distinct (map id_m vs)" and "\<forall>v \<in> set vs. type_m v = ''image''"
  shows "pool_ok (saveImages (s\<lparr>images := vs\<rparr>))"
  using assms by (simp add: pool_ok_def saveImages_def)

lemma pool_ok_handle:
  assumes p: "pool_ok s"
  shows "pool_ok (handle ev s)"
proof (cases ev)
  case (EvVideo a i c t)
  show ?thesis
  proof (cases "a \<and> findIndex (\<lambda>video. id_m video = i) (videos s) = -1")
    case True
    then have "\<forall>v \<in> set (videos s). id_m v \<noteq> i" by (simp add: findIndex_none)
    then have "i \<notin> set (map id_m (videos s))" by auto
    with p have "pool_ok (saveVideos (s\<lparr>videos := videos s @
        [\<lparr>id_m = i, type_m = ''video'', caption = c, addedAt = t\<rparr>]\<rparr>))"
      by (intro pool_ok_videos) (auto simp: pool_ok_def)
    with True EvVideo show ?thesis by (simp add: on_video_def)
  next
    case False
    with p EvVideo show ?thesis by (auto simp: on_video_def Let_def)
  qed
next
  case (EvPhoto a i c t)
  show ?thesis
  proof (cases "a \<and> findIndex (\<lambda>image. id_m image = i) (images s) = -1")
    case True
    then have "\<forall>v \<in> set (images s). id_m v \<noteq> i" by (simp add: findIndex_none)
    then have "i \<notin> set (map id_m (images s))" by auto
    with p have "pool_ok (saveImages (s\<lparr>images := images s @
        [\<lparr>id_m = i, type_m = ''image'', caption = c, addedAt = t\<rparr>]\<rparr>))"
      by (intro pool_ok_images) (auto simp: pool_ok_def)
    with True EvPhoto show ?thesis by (simp add: on_photo_def)
  next
    case False
    with p EvPhoto show ?thesis by (auto simp: on_photo_def Let_def)
  qed
next
  case (EvDeleteVideo a x)
  have "pool_ok (saveVideos (s\<lparr>videos := snd (splice1 i (videos s))\<rparr>))" for i
    using p splice1_set[of i "videos s"] splice1_distinct[of id_m "videos s" i]
    by (intro pool_ok_videos) (auto simp: pool_ok_def)
  with p EvDeleteVideo show ?thesis
    by (auto simp: deletevideo_def split: option.split prod.split) (metis snd_conv)
next
  case (EvDeleteImage a x)
  have "pool_ok (saveImages (s\<lparr>images := snd (splice1 i (images s))\<rparr>))" for i
    using p splice1_set[of i "images s"] splice1_distinct[of id_m "images s" i]
    by (intro pool_ok_images) (auto simp: pool_ok_def)
  with p EvDeleteImage show ?thesis
    by (auto simp: deleteimage_def split: option.split prod.split) (metis snd_conv)
next
  case (EvDeleteVideos a x)
  have "pool_ok (saveVideos (s\<lparr>videos := snd (splice_all is (videos s))\<rparr>))" for "is"
    using p splice_all_set[of "is" "videos s"] splice_all_distinct[of id_m "videos s" "is"]
    by (intro pool_ok_videos) (auto simp: pool_ok_def)
  with p EvDeleteVideos show ?thesis
    by (auto simp: deletevideos_def split: sum.split prod.split) (metis snd_conv)
next
  case (EvDeleteImages a x)
  have "pool_ok (saveImages (s\<lparr>images := snd (splice_all is (images s))\<rparr>))" for "is"
    using p splice_all_set[of "is" "images s"] splice_all_distinct[of id_m "images s" "is"]
    by (intro pool_ok_images) (auto simp: pool_ok_def)
  with p EvDeleteImages show ?thesis
    by (auto simp: deleteimages_def split: sum.split prod.split) (metis snd_conv)
next
  case (EvText c sel n t)
  with p show ?thesis
    by (auto simp: on_text_def pool_ok_cong[OF createScheduledJob_fields(1,2)] split: option.split)
next
  case (EvStop ty c)
  with p show ?thesis
    by (auto simp: stop_command_def saveScheduleData_def Let_def pool_ok_def split: option.split)
next
  case (EvTick h u)
  with p show ?thesis by (simp add: pool_ok_cong[OF fire_frame(4,5)])
qed

lemma pool_ok_run: "pool_ok s \<Longrightarrow> pool_ok (run evs s)"
  unfolding run_def by (induction evs arbitrary: s) (simp_all add: pool_ok_handle)

lemma pool_ok_startup: "pool_ok (boot vf imf []) \<Longrightarrow> pool_ok (startup clock vf imf sf)"
  using startup_frame[of clock vf imf sf] by (simp add: pool_ok_def boot_def)

text \<open>
  In every state reached from pools of this form, whatever list a job draws from holds
  pairwise different entries: the hypothesis of claim C1 on the list.
\<close>

lemma mediaToSend_distinct:
  assumes "pool_ok s"
  shows "distinct (mediaToSend mtype s)"
proof -
  from assms have dv: "distinct (videos s)" and di: "distinct (images s)"
    by (auto simp: pool_ok_def dest: distinct_map[THEN iffD1, THEN conjunct1])
  have "set (videos s) \<inter> set (images s) = {}"
  proof (rule ccontr)
    assume "set (videos s) \<inter> set (images s) \<noteq> {}"
    then obtain v where "v \<in> set (videos s)" "v \<in> set (images s)" by auto
    with assms have "type_m v = ''video''" "type_m v = ''image''" by (auto simp: pool_ok_def)
    then show False by simp
  qed
  with dv di show ?thesis by (simp add: mediaToSend_def)
qed

end
